theory Spec2Isabelle
  imports Main "HOL-Library.Word" "HOL-Library.Char_ord" "HOL-Library.List_Lexorder"
    "HOL-Library.Product_Lexorder"
begin

section \<open>Library functions called by main.go\<close>

text \<open>
  The comment service of \<^verbatim>\<open>main.go\<close> keeps no state of its own: every function talks to a
  Redis server through a connection, reads the clock, and posts to the Akismet classifier.
  This section models the pure library functions the code calls (\<^verbatim>\<open>strconv\<close>, \<^verbatim>\<open>html\<close>,
  \<^verbatim>\<open>fmt.Sprintf\<close> with the key formats of the file). Go strings are byte sequences, here
  \<^typ>\<open>string\<close>; an \<^verbatim>\<open>int64\<close> is a 64-bit word read through \<^const>\<open>sint\<close>.
\<close>

type_synonym int64 = "64 word"

datatype error =
    ErrNil                  \<comment> \<open>\<^verbatim>\<open>redis.ErrNil\<close>: a nil reply\<close>
  | ErrConn                 \<comment> \<open>the connection failed: the command did not reach the store\<close>
  | RedisError string       \<comment> \<open>an error reply of the server\<close>
  | ErrUnexpectedType       \<comment> \<open>a reply helper got a reply of another type\<close>
  | ErrSyntax               \<comment> \<open>\<^verbatim>\<open>strconv.ErrSyntax\<close>\<close>
  | ErrRange                \<comment> \<open>\<^verbatim>\<open>strconv.ErrRange\<close>\<close>
  | ErrScan                 \<comment> \<open>\<^verbatim>\<open>redis.ScanStruct\<close> could not assign\<close>
  | ErrHttp                 \<comment> \<open>\<^verbatim>\<open>http.PostForm\<close> or reading the body failed\<close>
  | ErrAddr                 \<comment> \<open>\<^verbatim>\<open>net.ResolveTCPAddr\<close> failed\<close>
  | ErrURL                  \<comment> \<open>\<^verbatim>\<open>url.Parse\<close> failed\<close>
  | ErrMsg string           \<comment> \<open>\<^verbatim>\<open>errors.New\<close>\<close>

subsection \<open>Decimal integers: the verb \<^verbatim>\<open>%d\<close> and \<^verbatim>\<open>strconv.ParseInt(s, 10, 64)\<close>\<close>

definition digit_char :: "nat \<Rightarrow> char" where
  "digit_char d = ''0123456789'' ! d"

fun digits :: "nat \<Rightarrow> string" where
  "digits n = (if n < 10 then [digit_char n] else digits (n div 10) @ [digit_char (n mod 10)])"

declare digits.simps [simp del]

definition FormatInt :: "int \<Rightarrow> string" where
  "FormatInt i = (if i < 0 then CHR ''-'' # digits (nat (- i)) else digits (nat i))"

definition is_digit :: "char \<Rightarrow> bool" where
  "is_digit c = (CHR ''0'' \<le> c \<and> c \<le> CHR ''9'')"

definition digit_val :: "char \<Rightarrow> nat" where
  "digit_val c = of_char c - 48"

definition maxUint64 :: nat where
  "maxUint64 = 18446744073709551615"

text \<open>
  The loop of \<^verbatim>\<open>strconv.ParseUint\<close> for base 10 and 64 bits: a byte that is no digit is a
  syntax error with value 0; an overflow stops the loop at once with the largest value and
  a range error.
\<close>

fun ParseUint_loop :: "string \<Rightarrow> nat \<Rightarrow> nat \<times> error option" where
  "ParseUint_loop [] n = (n, None)"
| "ParseUint_loop (c # cs) n =
     (if \<not> is_digit c then (0, Some ErrSyntax)
      else if n \<ge> maxUint64 div 10 + 1 then (maxUint64, Some ErrRange)
      else if n * 10 + digit_val c > maxUint64 then (maxUint64, Some ErrRange)
      else ParseUint_loop cs (n * 10 + digit_val c))"

definition ParseUint :: "string \<Rightarrow> nat \<times> error option" where
  "ParseUint s = (if s = [] then (0, Some ErrSyntax) else ParseUint_loop s 0)"

definition ParseInt :: "string \<Rightarrow> int64 \<times> error option" where
  "ParseInt s0 =
     (if s0 = [] then (0, Some ErrSyntax)
      else
        let neg = (hd s0 = CHR ''-'');
            s = (if hd s0 = CHR ''+'' \<or> hd s0 = CHR ''-'' then tl s0 else s0);
            (un, err) = ParseUint s
        in if err \<noteq> None \<and> err \<noteq> Some ErrRange then (0, err)
           else if \<not> neg \<and> un \<ge> 2 ^ 63 then (word_of_int (2 ^ 63 - 1), Some ErrRange)
           else if neg \<and> un > 2 ^ 63 then (word_of_int (- (2 ^ 63)), Some ErrRange)
           else (if neg then - word_of_nat un else word_of_nat un, None))"

subsection \<open>\<^verbatim>\<open>strconv.ParseBool\<close> and \<^verbatim>\<open>html.EscapeString\<close>\<close>

definition ParseBool :: "string \<Rightarrow> error + bool" where
  "ParseBool s =
     (if s \<in> set [''1'', ''t'', ''T'', ''TRUE'', ''true'', ''True''] then Inr True
      else if s \<in> set [''0'', ''f'', ''F'', ''FALSE'', ''false'', ''False''] then Inr False
      else Inl ErrSyntax)"

definition escape_byte :: "char \<Rightarrow> string" where
  "escape_byte c =
     (if c = CHR ''&'' then ''&amp;''
      else if c = CHR 0x27 then ''&#39;''
      else if c = CHR ''<'' then ''&lt;''
      else if c = CHR ''>'' then ''&gt;''
      else if c = CHR 0x22 then ''&#34;''
      else [c])"

definition EscapeString :: "string \<Rightarrow> string" where
  "EscapeString s = concat (map escape_byte s)"

subsection \<open>The Redis keys of the schema\<close>

text \<open>
  The formats \<^verbatim>\<open>keyEnabled\<close>, \<^verbatim>\<open>keyAll\<close>, \<^verbatim>\<open>keyApproved\<close> and \<^verbatim>\<open>keyComment\<close>, filled in by
  \<^verbatim>\<open>fmt.Sprintf\<close>: host and path are concatenated inside the braces.
\<close>

definition keyAutoEnable :: string where
  "keyAutoEnable = ''{luit.eu/comments}:auto_enable''"

definition keyEnabled :: "string \<Rightarrow> string \<Rightarrow> string" where
  "keyEnabled host path = ''{luit.eu/comments://'' @ host @ path @ ''}:enabled''"

definition keyAll :: "string \<Rightarrow> string \<Rightarrow> string" where
  "keyAll host path = ''{luit.eu/comments://'' @ host @ path @ ''}:all''"

definition keyApproved :: "string \<Rightarrow> string \<Rightarrow> string" where
  "keyApproved host path = ''{luit.eu/comments://'' @ host @ path @ ''}:approved''"

definition keyComment :: "string \<Rightarrow> string \<Rightarrow> int64 \<Rightarrow> string" where
  "keyComment host path cid =
     ''{luit.eu/comments://'' @ host @ path @ ''}:comment:'' @ FormatInt (sint cid)"

definition akismetCheckURL :: "string \<Rightarrow> string" where
  "akismetCheckURL key = ''https://'' @ key @ ''.rest.akismet.com/1.1/comment-check''"

section \<open>The Redis server\<close>

text \<open>
  The store is one key space; a key holds a string, a set, a sorted set or a hash. A sorted
  set is kept as the server orders it: ascending by score, members of equal score in
  bytewise order, no member twice. Scores are the integers the program sends (Redis keeps
  them as doubles, which are exact up to \<open>2^53\<close>: every Unix time in seconds is far below).
  A hash is a list of fields with their values, no field twice.
\<close>

datatype rvalue =
    RString string
  | RSet "string set"
  | RZSet "(int \<times> string) list"
  | RHash "(string \<times> string) list"

type_synonym store = "string \<rightharpoonup> rvalue"

datatype bound = MinusInf | PlusInf | Score int

datatype command =
    GET string
  | SET string string
  | SISMEMBER string string
  | ZADD string int string
  | ZRANGEBYSCORE string bound bound nat nat   \<comment> \<open>key min max LIMIT offset count\<close>
  | HMSET string "(string \<times> string) list"
  | HGETALL string

datatype reply =
    Nil
  | Integer int
  | Bulk string
  | Status string
  | Array "reply list"
  | Error string

definition wrongtype :: reply where
  "wrongtype = Error ''WRONGTYPE Operation against a key holding the wrong kind of value''"

definition zmembers :: "rvalue option \<Rightarrow> string set" where
  "zmembers v = (case v of Some (RZSet zs) \<Rightarrow> snd ` set zs | _ \<Rightarrow> {})"

definition zadd :: "int \<Rightarrow> string \<Rightarrow> (int \<times> string) list \<Rightarrow> (int \<times> string) list" where
  "zadd score member zs = insort (score, member) (filter (\<lambda>e. snd e \<noteq> member) zs)"

definition above :: "bound \<Rightarrow> int \<Rightarrow> bool" where
  "above lo s = (case lo of MinusInf \<Rightarrow> True | PlusInf \<Rightarrow> False | Score x \<Rightarrow> x \<le> s)"

definition below :: "bound \<Rightarrow> int \<Rightarrow> bool" where
  "below hi s = (case hi of MinusInf \<Rightarrow> False | PlusInf \<Rightarrow> True | Score x \<Rightarrow> s \<le> x)"

definition zrangebyscore :: "bound \<Rightarrow> bound \<Rightarrow> nat \<Rightarrow> nat \<Rightarrow> (int \<times> string) list \<Rightarrow> string list" where
  "zrangebyscore lo hi offset count zs =
     take count (drop offset (map snd (filter (\<lambda>e. above lo (fst e) \<and> below hi (fst e)) zs)))"

fun hset :: "string \<Rightarrow> string \<Rightarrow> (string \<times> string) list \<Rightarrow> (string \<times> string) list" where
  "hset f v [] = [(f, v)]"
| "hset f v ((f', v') # h) = (if f' = f then (f, v) # h else (f', v') # hset f v h)"

definition hmset :: "(string \<times> string) list \<Rightarrow> (string \<times> string) list \<Rightarrow> (string \<times> string) list" where
  "hmset fvs h = foldl (\<lambda>h (f, v). hset f v h) h fvs"

definition hgetall :: "(string \<times> string) list \<Rightarrow> reply list" where
  "hgetall h = concat (map (\<lambda>(f, v). [Bulk f, Bulk v]) h)"

text \<open>One command, executed atomically by the server: the reply and the store after it.\<close>

fun redis_exec :: "command \<Rightarrow> store \<Rightarrow> reply \<times> store" where
  "redis_exec (GET k) s =
     (case s k of
        None \<Rightarrow> (Nil, s)
      | Some (RString v) \<Rightarrow> (Bulk v, s)
      | Some _ \<Rightarrow> (wrongtype, s))"
| "redis_exec (SET k v) s = (Status ''OK'', s(k \<mapsto> RString v))"
| "redis_exec (SISMEMBER k m) s =
     (case s k of
        None \<Rightarrow> (Integer 0, s)
      | Some (RSet ms) \<Rightarrow> (Integer (if m \<in> ms then 1 else 0), s)
      | Some _ \<Rightarrow> (wrongtype, s))"
| "redis_exec (ZADD k score member) s =
     (case s k of
        None \<Rightarrow> (Integer 1, s(k \<mapsto> RZSet [(score, member)]))
      | Some (RZSet zs) \<Rightarrow>
          (Integer (if member \<in> snd ` set zs then 0 else 1), s(k \<mapsto> RZSet (zadd score member zs)))
      | Some _ \<Rightarrow> (wrongtype, s))"
| "redis_exec (ZRANGEBYSCORE k lo hi offset count) s =
     (case s k of
        None \<Rightarrow> (Array [], s)
      | Some (RZSet zs) \<Rightarrow> (Array (map Bulk (zrangebyscore lo hi offset count zs)), s)
      | Some _ \<Rightarrow> (wrongtype, s))"
| "redis_exec (HMSET k fvs) s =
     (if fvs = [] then (Error ''ERR wrong number of arguments for HMSET'', s)
      else case s k of
        None \<Rightarrow> (Status ''OK'', s(k \<mapsto> RHash (hmset fvs [])))
      | Some (RHash h) \<Rightarrow> (Status ''OK'', s(k \<mapsto> RHash (hmset fvs h)))
      | Some _ \<Rightarrow> (wrongtype, s))"
| "redis_exec (HGETALL k) s =
     (case s k of
        None \<Rightarrow> (Array [], s)
      | Some (RHash h) \<Rightarrow> (Array (hgetall h), s)
      | Some _ \<Rightarrow> (wrongtype, s))"

subsection \<open>The reply helpers of redigo\<close>

text \<open>
  Each helper takes the pair \<^verbatim>\<open>(reply, err)\<close> that \<^verbatim>\<open>conn.Do\<close> returns, here a sum, and hands
  an error through.
\<close>

definition redis_Bool :: "error + reply \<Rightarrow> error + bool" where
  "redis_Bool r =
     (case r of
        Inl err \<Rightarrow> Inl err
      | Inr (Integer n) \<Rightarrow> Inr (n \<noteq> 0)
      | Inr (Bulk b) \<Rightarrow> ParseBool b
      | Inr Nil \<Rightarrow> Inl ErrNil
      | Inr (Error e) \<Rightarrow> Inl (RedisError e)
      | Inr _ \<Rightarrow> Inl ErrUnexpectedType)"

definition redis_String :: "error + reply \<Rightarrow> error + string" where
  "redis_String r =
     (case r of
        Inl err \<Rightarrow> Inl err
      | Inr (Bulk b) \<Rightarrow> Inr b
      | Inr (Status b) \<Rightarrow> Inr b
      | Inr Nil \<Rightarrow> Inl ErrNil
      | Inr (Error e) \<Rightarrow> Inl (RedisError e)
      | Inr _ \<Rightarrow> Inl ErrUnexpectedType)"

definition redis_Values :: "error + reply \<Rightarrow> error + reply list" where
  "redis_Values r =
     (case r of
        Inl err \<Rightarrow> Inl err
      | Inr (Array rs) \<Rightarrow> Inr rs
      | Inr Nil \<Rightarrow> Inl ErrNil
      | Inr (Error e) \<Rightarrow> Inl (RedisError e)
      | Inr _ \<Rightarrow> Inl ErrUnexpectedType)"

fun strings_of :: "reply list \<Rightarrow> error + string list" where
  "strings_of [] = Inr []"
| "strings_of (r # rs) =
     (case r of
        Nil \<Rightarrow> map_sum (\<lambda>e. e) (\<lambda>ss. [] # ss) (strings_of rs)
      | Bulk b \<Rightarrow> map_sum (\<lambda>e. e) (\<lambda>ss. b # ss) (strings_of rs)
      | _ \<Rightarrow> Inl ErrUnexpectedType)"

definition redis_Strings :: "error + reply \<Rightarrow> error + string list" where
  "redis_Strings r =
     (case r of
        Inl err \<Rightarrow> Inl err
      | Inr (Array rs) \<Rightarrow> strings_of rs
      | Inr Nil \<Rightarrow> Inl ErrNil
      | Inr (Error e) \<Rightarrow> Inl (RedisError e)
      | Inr _ \<Rightarrow> Inl ErrUnexpectedType)"

fun string_pairs :: "reply list \<Rightarrow> error + (string \<times> string) list" where
  "string_pairs (Bulk k # Bulk v # rs) = map_sum (\<lambda>e. e) (\<lambda>ps. (k, v) # ps) (string_pairs rs)"
| "string_pairs [] = Inr []"
| "string_pairs rs = Inl (ErrMsg ''redigo: ScanMap key not a bulk string value'')"

text \<open>
  \<^verbatim>\<open>redis.StringMap\<close> builds a Go map: a key that comes twice keeps its last value.
\<close>

definition redis_StringMap :: "error + reply \<Rightarrow> error + (string \<rightharpoonup> string)" where
  "redis_StringMap r =
     (case redis_Values r of
        Inl err \<Rightarrow> Inl err
      | Inr vals \<Rightarrow>
          if odd (length vals)
          then Inl (ErrMsg ''redigo: StringMap expects even number of values result'')
          else map_sum (\<lambda>e. e) (\<lambda>ps. map_of (rev ps)) (string_pairs vals))"

section \<open>The program as a tree of effects\<close>

text \<open>
  A function of \<^verbatim>\<open>main.go\<close> is modelled as the tree of the effects it performs, in program
  order: each node is one call that leaves the process (\<^verbatim>\<open>conn.Do\<close>, \<^verbatim>\<open>time.Now().Unix()\<close>,
  \<^verbatim>\<open>time.Sleep(time.Second)\<close>, \<^verbatim>\<open>http.PostForm\<close> with \<^verbatim>\<open>ioutil.ReadAll\<close> of the body, a
  line of the log), with the rest of the function as a continuation of the call's result.
  The tree says nothing about the store: the same tree is run alone against a world
  (\<open>run\<close>, below) and interleaved with other requests (\<open>sys_step\<close>). \<open>Spin\<close> marks the
  point where the retry loop of \<^verbatim>\<open>saveComment\<close> has used up the iterations the model
  follows. Acquiring and closing the pooled connection is not modelled; a connection that
  could not be dialled answers every call with an error, as a failing call does.
\<close>

datatype logline =
    LogError error                       \<comment> \<open>\<^verbatim>\<open>log.Println(err)\<close>\<close>
  | LogUnexpected string                 \<comment> \<open>unexpected return value from HMSET\<close>
  | LogNew bool string string int64      \<comment> \<open>new approved or unapproved comment at host, path: id\<close>

datatype 'a prog =
    Return 'a
  | Do command "error + reply \<Rightarrow> 'a prog"
  | Now "int64 \<Rightarrow> 'a prog"
  | Sleep "'a prog"
  | PostForm string "string \<Rightarrow> string list" "error + (error + string) \<Rightarrow> 'a prog"
  | Log logline "'a prog"
  | Spin

primrec bind :: "'a prog \<Rightarrow> ('a \<Rightarrow> 'b prog) \<Rightarrow> 'b prog" where
  "bind (Return x) f = f x"
| "bind (Do c k) f = Do c (\<lambda>r. bind (k r) f)"
| "bind (Now k) f = Now (\<lambda>t. bind (k t) f)"
| "bind (Sleep p) f = Sleep (bind p f)"
| "bind (PostForm u d k) f = PostForm u d (\<lambda>r. bind (k r) f)"
| "bind (Log l p) f = Log l (bind p f)"
| "bind Spin f = Spin"

subsection \<open>Requests and records\<close>

record commentSubmitRequest =
  Permalink :: string
  req_host :: string   \<comment> \<open>the field \<^verbatim>\<open>host\<close>\<close>
  req_path :: string   \<comment> \<open>the field \<^verbatim>\<open>path\<close>\<close>
  UserIP :: string
  UserAgent :: string
  Referrer :: string
  Author :: string
  AuthorEmail :: string
  AuthorURL :: string
  Content :: string

text \<open>The struct \<^verbatim>\<open>comment\<close>; its fields carry a prefix to keep them apart from the request's.\<close>

record comment =
  comment_ID :: string
  comment_Author :: string
  comment_Content :: string

text \<open>
  A Go slice is \<^verbatim>\<open>nil\<close> or holds a sequence, which may be empty: \<^verbatim>\<open>make([]comment, 0)\<close> is the
  empty slice that is not \<^verbatim>\<open>nil\<close>, and \<^verbatim>\<open>encoding/json\<close> writes \<^verbatim>\<open>null\<close> for the one and \<^verbatim>\<open>[]\<close>
  for the other. \<^verbatim>\<open>append\<close> gives a slice that is not \<^verbatim>\<open>nil\<close>.
\<close>

datatype 'a slice = NilSlice | Slice "'a list"

fun append_slice :: "'a slice \<Rightarrow> 'a \<Rightarrow> 'a slice" where
  "append_slice NilSlice x = Slice [x]"
| "append_slice (Slice xs) x = Slice (xs @ [x])"

text \<open>
  What the handler reads of an \<^verbatim>\<open>http.Request\<close>: the method, the result of \<^verbatim>\<open>r.ParseForm()\<close>,
  the form values and headers (first value of each name), and the remote address.
\<close>

record request =
  Method :: string
  ParseForm :: "error option"
  Form :: "(string \<times> string) list"
  Header :: "(string \<times> string) list"
  RemoteAddr :: string

definition FormValue :: "request \<Rightarrow> string \<Rightarrow> string" where
  "FormValue r k = (case map_of (Form r) k of None \<Rightarrow> [] | Some v \<Rightarrow> v)"

definition Header_Get :: "request \<Rightarrow> string \<Rightarrow> string" where
  "Header_Get r k = (case map_of (Header r) k of None \<Rightarrow> [] | Some v \<Rightarrow> v)"

text \<open>The fields of \<^verbatim>\<open>url.URL\<close> that the code reads.\<close>

record url =
  Host :: string
  Path :: string

text \<open>
  What the process is started with: the standard library's \<^verbatim>\<open>url.Parse\<close> and
  \<^verbatim>\<open>net.ResolveTCPAddr("tcp", _)\<close> (giving the address's \<^verbatim>\<open>IP.String()\<close>), which are not part
  of the repository and are left as parameters, and the variable \<^verbatim>\<open>akismetKey\<close>, read from
  the environment once.
\<close>

record deps =
  url_Parse :: "string \<Rightarrow> error + url"
  ResolveTCPAddr :: "string \<Rightarrow> error + string"
  akismetKey :: string

text \<open>What the handler writes to its \<^verbatim>\<open>http.ResponseWriter\<close>, in order.\<close>

datatype resp_write =
    HttpError string nat          \<comment> \<open>\<^verbatim>\<open>http.Error(w, msg, code)\<close>\<close>
  | HttpErrorOf error nat         \<comment> \<open>\<^verbatim>\<open>http.Error(w, err.Error(), code)\<close>\<close>
  | SetHeader string string
  | JsonEncode "comment slice"
  | Redirect string nat

subsection \<open>\<^verbatim>\<open>cleanCommentSubmitRequest\<close>\<close>

definition cleanCommentSubmitRequest :: "deps \<Rightarrow> request \<Rightarrow> error + commentSubmitRequest" where
  "cleanCommentSubmitRequest d r =
     (let rawURL = FormValue r ''url'' in
      case url_Parse d rawURL of
        Inl err \<Rightarrow> Inl err
      | Inr u \<Rightarrow>
          if Host u = [] then Inl (ErrMsg ''bad url value'')
          else if FormValue r ''comment_author'' = [] then Inl (ErrMsg ''bad comment_author value'')
          else if FormValue r ''comment_content'' = [] then Inl (ErrMsg ''bad comment_content value'')
          else
            case (if Header_Get r ''X-Forwarded-For'' = []
                  then ResolveTCPAddr d (RemoteAddr r)
                  else Inr (Header_Get r ''X-Forwarded-For'')) of
              Inl err \<Rightarrow> Inl err
            | Inr userIP \<Rightarrow>
                Inr \<lparr>Permalink = rawURL,
                     req_host = Host u,
                     req_path = Path u,
                     UserIP = userIP,
                     UserAgent = Header_Get r ''User-Agent'',
                     Referrer = Header_Get r ''Referer'',
                     Author = FormValue r ''comment_author'',
                     AuthorEmail = FormValue r ''comment_author_email'',
                     AuthorURL = FormValue r ''comment_author_url'',
                     Content = FormValue r ''comment_content''\<rparr>)"

subsection \<open>\<^verbatim>\<open>getComments\<close>\<close>

text \<open>
  \<^verbatim>\<open>redis.ScanStruct(vals, &c)\<close> for the struct \<^verbatim>\<open>comment\<close>: the field \<^verbatim>\<open>ID\<close> has the tag
  \<^verbatim>\<open>redis:"-"\<close> and is never assigned; a nil value and a name that is no field of the struct
  are passed over; a bulk string is assigned to a string field, any other value is not.
\<close>

fun ScanStruct_loop :: "reply list \<Rightarrow> comment \<Rightarrow> error + comment" where
  "ScanStruct_loop (name # val # rs) c =
     (if val = Nil then ScanStruct_loop rs c
      else case name of
        Bulk n \<Rightarrow>
          if n = ''comment_author'' then
            (case val of Bulk b \<Rightarrow> ScanStruct_loop rs (c\<lparr>comment_Author := b\<rparr>) | _ \<Rightarrow> Inl ErrScan)
          else if n = ''comment_content'' then
            (case val of Bulk b \<Rightarrow> ScanStruct_loop rs (c\<lparr>comment_Content := b\<rparr>) | _ \<Rightarrow> Inl ErrScan)
          else ScanStruct_loop rs c
      | _ \<Rightarrow> Inl ErrScan)"
| "ScanStruct_loop rs c = Inr c"

definition ScanStruct :: "reply list \<Rightarrow> comment \<Rightarrow> error + comment" where
  "ScanStruct src c = (if odd (length src) then Inl ErrScan else ScanStruct_loop src c)"

text \<open>
  The results \<^verbatim>\<open>([]comment, error)\<close> as a pair: \<^verbatim>\<open>return nil, err\<close> and \<^verbatim>\<open>return comments, nil\<close>.
\<close>

fun getComments_loop :: "string \<Rightarrow> string \<Rightarrow> string list \<Rightarrow> comment slice \<Rightarrow> (comment slice \<times> error option) prog" where
  "getComments_loop host path [] comments = Return (comments, None)"
| "getComments_loop host path (i # ids) comments =
     (let intid = fst (ParseInt i) in
      Do (HGETALL (keyComment host path intid)) (\<lambda>r.
        case redis_Values r of
          Inl err \<Rightarrow> Return (NilSlice, Some err)
        | Inr vals \<Rightarrow>
            case ScanStruct vals \<lparr>comment_ID = [], comment_Author = [], comment_Content = []\<rparr> of
              Inl err \<Rightarrow> Return (NilSlice, Some err)
            | Inr c \<Rightarrow>
                getComments_loop host path ids
                  (append_slice comments
                     (c\<lparr>comment_ID := i,
                        comment_Author := EscapeString (comment_Author c),
                        comment_Content := EscapeString (comment_Content c)\<rparr>))))"

definition getComments :: "string \<Rightarrow> string \<Rightarrow> (comment slice \<times> error option) prog" where
  "getComments host path =
     Do (ZRANGEBYSCORE (keyApproved host path) MinusInf PlusInf 0 10) (\<lambda>r.
       case redis_Strings r of
         Inl err \<Rightarrow> Return (NilSlice, Some err)
       | Inr ids \<Rightarrow> getComments_loop host path ids (Slice []))"

subsection \<open>\<^verbatim>\<open>autoEnabled\<close>\<close>

text \<open>
  The named results \<^verbatim>\<open>(en, err)\<close> as a pair; \<^verbatim>\<open>redis.Bool\<close> gives \<^verbatim>\<open>false\<close> with an error. The
  reply of \<^verbatim>\<open>SET\<close> is dropped by the code.
\<close>

definition autoEnabled :: "string \<Rightarrow> string \<Rightarrow> (bool \<times> error option) prog" where
  "autoEnabled host path =
     Do (GET (keyEnabled host path)) (\<lambda>r.
       case redis_Bool r of
         Inl err \<Rightarrow>
           if err = ErrNil then
             Do (SISMEMBER keyAutoEnable host) (\<lambda>r.
               case redis_Bool r of
                 Inl err \<Rightarrow> Return (False, Some err)
               | Inr en \<Rightarrow>
                   if en then Do (SET (keyEnabled host path) ''true'') (\<lambda>_. Return (en, None))
                   else Return (en, None))
           else Return (False, Some err)
       | Inr en \<Rightarrow> Return (en, None))"

subsection \<open>\<^verbatim>\<open>saveComment\<close>\<close>

text \<open>
  \<^verbatim>\<open>redis.Args{}.Add(key).AddFlat(req)\<close>: the exported fields of the request under their
  \<^verbatim>\<open>redis\<close> tags, in the order of the struct; \<^verbatim>\<open>host\<close> and \<^verbatim>\<open>path\<close> are not exported.
\<close>

definition AddFlat :: "commentSubmitRequest \<Rightarrow> (string \<times> string) list" where
  "AddFlat req =
     [(''permalink'', Permalink req),
      (''user_ip'', UserIP req),
      (''user_agent'', UserAgent req),
      (''referrer'', Referrer req),
      (''comment_author'', Author req),
      (''comment_author_email'', AuthorEmail req),
      (''comment_author_url'', AuthorURL req),
      (''comment_content'', Content req)]"

definition saveComment_store :: "commentSubmitRequest \<Rightarrow> int64 \<Rightarrow> (int64 \<times> error option) prog" where
  "saveComment_store req cid =
     Do (HMSET (keyComment (req_host req) (req_path req) cid) (AddFlat req)) (\<lambda>r.
       case redis_String r of
         Inl err \<Rightarrow> Return (cid, Some err)
       | Inr ok \<Rightarrow>
           if ok \<noteq> ''OK'' then Log (LogUnexpected ok) (Return (cid, None))
           else Return (cid, None))"

text \<open>
  The loop \<^verbatim>\<open>for { ... }\<close> has no bound in the code; the first argument is the number of
  iterations the model follows before it gives \<open>Spin\<close>. The named results \<^verbatim>\<open>(id, err)\<close> are a
  pair: \<^verbatim>\<open>id\<close> holds the last candidate also when an error is returned.
\<close>

fun saveComment :: "nat \<Rightarrow> commentSubmitRequest \<Rightarrow> (int64 \<times> error option) prog" where
  "saveComment 0 req = Spin"
| "saveComment (Suc fuel) req =
     Now (\<lambda>cid.
       Do (ZADD (keyAll (req_host req) (req_path req)) (sint cid) (FormatInt (sint cid))) (\<lambda>r.
         case redis_Bool r of
           Inl err \<Rightarrow> Log (LogError err) (Return (cid, Some err))
         | Inr added \<Rightarrow>
             if added then saveComment_store req cid
             else Sleep (saveComment fuel req)))"

subsection \<open>\<^verbatim>\<open>autoApproveComment\<close>\<close>

text \<open>
  The form sent to the classifier: \<^verbatim>\<open>blog\<close> and one \<^verbatim>\<open>data.Add(key, value)\<close> for every
  field of the record. The fields are the keys of a Go map, so each is added once and the
  order of the iteration does not show; a field named \<^verbatim>\<open>blog\<close> comes after the site.
\<close>

definition form_data :: "(string \<rightharpoonup> string) \<Rightarrow> string \<Rightarrow> string list" where
  "form_data vals k =
     (if k = ''blog'' then [''https://luit.eu/''] else []) @
     (case vals k of None \<Rightarrow> [] | Some v \<Rightarrow> [v])"

definition autoApproveComment :: "string \<Rightarrow> string \<Rightarrow> string \<Rightarrow> int64 \<Rightarrow> (bool \<times> error option) prog" where
  "autoApproveComment key host path cid =
     (if key = [] then Return (False, None)
      else
        Do (HGETALL (keyComment host path cid)) (\<lambda>r.
          case redis_StringMap r of
            Inl err \<Rightarrow> Return (False, Some err)
          | Inr vals \<Rightarrow>
              PostForm (akismetCheckURL key) (form_data vals) (\<lambda>resp.
                case resp of
                  Inl err \<Rightarrow> Return (False, Some err)
                | Inr (Inl err) \<Rightarrow> Return (False, Some err)
                | Inr (Inr body) \<Rightarrow>
                    case ParseBool body of
                      Inl err \<Rightarrow>
                        Return (False, Some (ErrMsg (''unexpected return value from akismet: '' @ body)))
                    | Inr isSpam \<Rightarrow>
                        if \<not> isSpam then
                          Do (ZADD (keyApproved host path) (sint cid) (FormatInt (sint cid))) (\<lambda>r.
                            case redis_Bool r of
                              Inl err \<Rightarrow> Return (False, Some err)
                            | Inr added \<Rightarrow> Return (added, None))
                        else Return (False, None))))"

subsection \<open>\<^verbatim>\<open>commentHandler\<close>\<close>

text \<open>
  When \<^verbatim>\<open>r.ParseForm()\<close> fails the code writes an error and goes on (there is no
  \<^verbatim>\<open>return\<close>): the writes of the method's branch follow it. A method other than GET and POST
  writes nothing.
\<close>

definition form_error :: "request \<Rightarrow> resp_write list" where
  "form_error r = (case ParseForm r of None \<Rightarrow> [] | Some err \<Rightarrow> [HttpError ''unable to parse form'' 400])"

definition handleGET :: "deps \<Rightarrow> request \<Rightarrow> resp_write list prog" where
  "handleGET d r =
     (let rawURL = FormValue r ''url'' in
      case url_Parse d rawURL of
        Inl err \<Rightarrow> Return [HttpError ''bad URL'' 400]
      | Inr u \<Rightarrow>
          bind (getComments (Host u) (Path u)) (\<lambda>(comments, err).
            case err of
              Some e \<Rightarrow> Return [HttpError ''backend error'' 500]
            | None \<Rightarrow>
                Return [SetHeader ''Content-Type'' ''application/json'', JsonEncode comments]))"

definition handlePOST :: "deps \<Rightarrow> nat \<Rightarrow> request \<Rightarrow> resp_write list prog" where
  "handlePOST d fuel r =
     (case cleanCommentSubmitRequest d r of
        Inl err \<Rightarrow> Return [HttpErrorOf err 400]
      | Inr req \<Rightarrow>
          bind (autoEnabled (req_host req) (req_path req)) (\<lambda>(en, err).
            case err of
              Some e \<Rightarrow> Log (LogError e) (Return [HttpError ''backend error'' 500])
            | None \<Rightarrow>
                if \<not> en then Return [HttpError ''comments not enabled'' 400]
                else
                  bind (saveComment fuel req) (\<lambda>(cid, err).
                    case err of
                      Some e \<Rightarrow> Log (LogError e) (Return [HttpError ''backend error'' 500])
                    | None \<Rightarrow>
                        bind (autoApproveComment (akismetKey d) (req_host req) (req_path req) cid)
                          (\<lambda>(approved, err).
                            bind (case err of Some e \<Rightarrow> Log (LogError e) (Return ()) | None \<Rightarrow> Return ())
                              (\<lambda>_. Log (LogNew approved (req_host req) (req_path req) cid)
                                     (Return [Redirect (Permalink req) 302]))))))"

definition commentHandler :: "deps \<Rightarrow> nat \<Rightarrow> request \<Rightarrow> resp_write list prog" where
  "commentHandler d fuel r =
     bind (if Method r = ''GET'' then handleGET d r
           else if Method r = ''POST'' then handlePOST d fuel r
           else Return [])
       (\<lambda>ws. Return (form_error r @ ws))"

section \<open>Running a tree against the world\<close>

text \<open>
  The world of one process running alone: the store; for each coming call of \<^verbatim>\<open>conn.Do\<close>
  whether it fails (a failing call returns an error and leaves the store as it was; when
  the list is used up calls succeed); the clock in seconds, which \<^verbatim>\<open>time.Sleep(time.Second)\<close>
  advances by one; the coming answers of the classifier; and the effects performed so far.
\<close>

datatype event =
    EDo command "error + reply"
  | ENow int64
  | ESleep
  | EPost string "string \<Rightarrow> string list" "error + (error + string)"
  | ELog logline

record world =
  redis :: store
  faults :: "bool list"
  now :: int
  akismet :: "(error + (error + string)) list"
  trace :: "event list"

definition conn_reply :: "command \<Rightarrow> world \<Rightarrow> error + reply" where
  "conn_reply c w =
     (case faults w of
        True # fs \<Rightarrow> Inl ErrConn
      | _ \<Rightarrow> (case fst (redis_exec c (redis w)) of Error e \<Rightarrow> Inl (RedisError e) | r \<Rightarrow> Inr r))"

definition conn_Do :: "command \<Rightarrow> world \<Rightarrow> (error + reply) \<times> world" where
  "conn_Do c w =
     (conn_reply c w,
      w\<lparr>redis := (case faults w of True # fs \<Rightarrow> redis w | _ \<Rightarrow> snd (redis_exec c (redis w))),
        faults := tl (faults w),
        trace := trace w @ [EDo c (conn_reply c w)]\<rparr>)"

definition time_Now :: "world \<Rightarrow> int64 \<times> world" where
  "time_Now w = (word_of_int (now w), w\<lparr>trace := trace w @ [ENow (word_of_int (now w))]\<rparr>)"

definition time_Sleep :: "world \<Rightarrow> world" where
  "time_Sleep w = w\<lparr>now := now w + 1, trace := trace w @ [ESleep]\<rparr>"

definition http_reply :: "world \<Rightarrow> error + (error + string)" where
  "http_reply w = (case akismet w of [] \<Rightarrow> Inl ErrHttp | a # as \<Rightarrow> a)"

definition http_PostForm :: "string \<Rightarrow> (string \<Rightarrow> string list) \<Rightarrow> world \<Rightarrow> (error + (error + string)) \<times> world" where
  "http_PostForm u d w =
     (http_reply w, w\<lparr>akismet := tl (akismet w), trace := trace w @ [EPost u d (http_reply w)]\<rparr>)"

definition log_Print :: "logline \<Rightarrow> world \<Rightarrow> world" where
  "log_Print l w = w\<lparr>trace := trace w @ [ELog l]\<rparr>"

text \<open>The result is \<open>None\<close> when the tree ends in \<open>Spin\<close>.\<close>

primrec run :: "'a prog \<Rightarrow> world \<Rightarrow> 'a option \<times> world" where
  "run (Return x) w = (Some x, w)"
| "run (Do c k) w = run (k (fst (conn_Do c w))) (snd (conn_Do c w))"
| "run (Now k) w = run (k (fst (time_Now w))) (snd (time_Now w))"
| "run (Sleep p) w = run p (time_Sleep w)"
| "run (PostForm u d k) w = run (k (fst (http_PostForm u d w))) (snd (http_PostForm u d w))"
| "run (Log l p) w = run p (log_Print l w)"
| "run Spin w = (None, w)"

section \<open>The data model of the store\<close>

text \<open>
  The entities of the schema, read off a store. A thread is a pair of host and path; its
  keys are the formats filled with both.
\<close>

definition AllIndex :: "store \<Rightarrow> string \<Rightarrow> string \<Rightarrow> string set" where
  "AllIndex s host path = zmembers (s (keyAll host path))"

definition ApprovedIndex :: "store \<Rightarrow> string \<Rightarrow> string \<Rightarrow> string set" where
  "ApprovedIndex s host path = zmembers (s (keyApproved host path))"

definition EnablementFlag :: "store \<Rightarrow> string \<Rightarrow> string \<Rightarrow> string option" where
  "EnablementFlag s host path =
     (case s (keyEnabled host path) of Some (RString v) \<Rightarrow> Some v | _ \<Rightarrow> None)"

definition AutoEnableSet :: "store \<Rightarrow> string set" where
  "AutoEnableSet s = (case s keyAutoEnable of Some (RSet ms) \<Rightarrow> ms | _ \<Rightarrow> {})"

definition CommentRecord :: "store \<Rightarrow> string \<Rightarrow> string \<Rightarrow> int64 \<Rightarrow> (string \<times> string) list option" where
  "CommentRecord s host path cid =
     (case s (keyComment host path cid) of Some (RHash h) \<Rightarrow> Some h | _ \<Rightarrow> None)"

text \<open>
  The schema in the header comment of \<^verbatim>\<open>main.go\<close>: the auto-enable key holds a set, an
  enabled key a string, the index keys sorted sets "with timestamps as score and member"
  (the member is the decimal form of the score, an \<^verbatim>\<open>int64\<close>), a comment key a hash. A sorted
  set is in the server's order and a hash has no field twice.
\<close>

definition index_ok :: "rvalue option \<Rightarrow> bool" where
  "index_ok v =
     (case v of
        None \<Rightarrow> True
      | Some (RZSet zs) \<Rightarrow>
          sorted zs \<and> distinct (map snd zs) \<and>
          list_all (\<lambda>e. snd e = FormatInt (fst e) \<and> - (2 ^ 63) \<le> fst e \<and> fst e < 2 ^ 63) zs
      | Some _ \<Rightarrow> False)"

definition record_ok :: "rvalue option \<Rightarrow> bool" where
  "record_ok v =
     (case v of None \<Rightarrow> True | Some (RHash h) \<Rightarrow> distinct (map fst h) | Some _ \<Rightarrow> False)"

definition flag_ok :: "rvalue option \<Rightarrow> bool" where
  "flag_ok v = (case v of None \<Rightarrow> True | Some (RString b) \<Rightarrow> True | Some _ \<Rightarrow> False)"

definition set_ok :: "rvalue option \<Rightarrow> bool" where
  "set_ok v = (case v of None \<Rightarrow> True | Some (RSet ms) \<Rightarrow> True | Some _ \<Rightarrow> False)"

definition schema :: "store \<Rightarrow> bool" where
  "schema s =
     (set_ok (s keyAutoEnable) \<and>
      (\<forall>host path.
         flag_ok (s (keyEnabled host path)) \<and>
         index_ok (s (keyAll host path)) \<and>
         index_ok (s (keyApproved host path)) \<and>
         (\<forall>cid. record_ok (s (keyComment host path cid)))))"

text \<open>
  The listing of a thread in closed form, to state what \<^verbatim>\<open>getComments\<close> returns: the members
  of the approved index in the server's order, and for a member the entry made of the member
  itself and the escaped fields of the hash at the comment key of the member parsed as a
  number (no hash, or a hash without the field, gives the empty string).
\<close>

definition index_list :: "rvalue option \<Rightarrow> string list" where
  "index_list v = (case v of Some (RZSet zs) \<Rightarrow> map snd zs | _ \<Rightarrow> [])"

definition field :: "(string \<times> string) list option \<Rightarrow> string \<Rightarrow> string" where
  "field h k = (case h of None \<Rightarrow> [] | Some fvs \<Rightarrow> (case map_of fvs k of None \<Rightarrow> [] | Some v \<Rightarrow> v))"

definition entry :: "store \<Rightarrow> string \<Rightarrow> string \<Rightarrow> string \<Rightarrow> comment" where
  "entry s host path i =
     \<lparr>comment_ID = i,
      comment_Author = EscapeString (field (CommentRecord s host path (fst (ParseInt i))) ''comment_author''),
      comment_Content = EscapeString (field (CommentRecord s host path (fst (ParseInt i))) ''comment_content'')\<rparr>"

text \<open>Whether the \<open>n\<close>-th coming call of \<^verbatim>\<open>conn.Do\<close> fails.\<close>

definition fails :: "world \<Rightarrow> nat \<Rightarrow> bool" where
  "fails w n = (n < length (faults w) \<and> faults w ! n)"

text \<open>
  The effects of \<open>n\<close> iterations of the loop of \<^verbatim>\<open>saveComment\<close> that collide, the first at
  clock \<open>t\<close>: the candidate is read, the add reports no insertion, the process sleeps.
\<close>

fun collisions :: "commentSubmitRequest \<Rightarrow> int \<Rightarrow> nat \<Rightarrow> event list" where
  "collisions req t 0 = []"
| "collisions req t (Suc n) =
     [ENow (word_of_int t),
      EDo (ZADD (keyAll (req_host req) (req_path req)) (sint (word_of_int t :: int64))
             (FormatInt (sint (word_of_int t :: int64)))) (Inr (Integer 0)),
      ESleep] @ collisions req (t + 1) n"

section \<open>The scenario of the specification\<close>

text \<open>
  A host on the allow-list, a submission to \<^verbatim>\<open>https://example.com/post\<close> by author \<^verbatim>\<open>a\<close>, the
  clock at 1700000000; the failing store calls and the classifier's answers are parameters.
  \<^verbatim>\<open>url.Parse\<close> is given on the scenario's URL only.
\<close>

definition scenario_deps :: deps where
  "scenario_deps =
     \<lparr>url_Parse = (\<lambda>s. if s = ''https://example.com/post''
                         then Inr \<lparr>Host = ''example.com'', Path = ''/post''\<rparr> else Inl ErrURL),
      ResolveTCPAddr = (\<lambda>s. Inr ''192.0.2.1''),
      akismetKey = ''key''\<rparr>"

definition scenario_request :: request where
  "scenario_request =
     \<lparr>Method = ''POST'', ParseForm = None,
      Form = [(''url'', ''https://example.com/post''), (''comment_author'', ''a''),
              (''comment_content'', ''<b>hi</b>'')],
      Header = [], RemoteAddr = ''192.0.2.1:4000''\<rparr>"

definition scenario_req :: commentSubmitRequest where
  "scenario_req =
     \<lparr>Permalink = ''https://example.com/post'', req_host = ''example.com'', req_path = ''/post'',
      UserIP = ''192.0.2.1'', UserAgent = [], Referrer = [], Author = ''a'', AuthorEmail = [],
      AuthorURL = [], Content = ''<b>hi</b>''\<rparr>"

definition scenario_world :: "bool list \<Rightarrow> (error + (error + string)) list \<Rightarrow> world" where
  "scenario_world fs as =
     \<lparr>redis = [keyAutoEnable \<mapsto> RSet {''example.com''}], faults = fs, now = 1700000000,
      akismet = as, trace = []\<rparr>"

text \<open>
  The same thread when ten older comments are approved already: the identifiers 1 to 10
  are in both indexes, each with its record, and the classifier will answer that the next
  comment is no spam.
\<close>

definition older_ids :: "(int \<times> string) list" where
  "older_ids =
     [(1, ''1''), (2, ''2''), (3, ''3''), (4, ''4''), (5, ''5''),
      (6, ''6''), (7, ''7''), (8, ''8''), (9, ''9''), (10, ''10'')]"

definition older_record :: rvalue where
  "older_record = RHash [(''comment_author'', ''x''), (''comment_content'', ''y'')]"

definition crowded_world :: world where
  "crowded_world =
     \<lparr>redis = [keyAll ''example.com'' ''/post'' \<mapsto> RZSet older_ids,
               keyApproved ''example.com'' ''/post'' \<mapsto> RZSet older_ids,
               keyComment ''example.com'' ''/post'' 1 \<mapsto> older_record,
               keyComment ''example.com'' ''/post'' 2 \<mapsto> older_record,
               keyComment ''example.com'' ''/post'' 3 \<mapsto> older_record,
               keyComment ''example.com'' ''/post'' 4 \<mapsto> older_record,
               keyComment ''example.com'' ''/post'' 5 \<mapsto> older_record,
               keyComment ''example.com'' ''/post'' 6 \<mapsto> older_record,
               keyComment ''example.com'' ''/post'' 7 \<mapsto> older_record,
               keyComment ''example.com'' ''/post'' 8 \<mapsto> older_record,
               keyComment ''example.com'' ''/post'' 9 \<mapsto> older_record,
               keyComment ''example.com'' ''/post'' 10 \<mapsto> older_record],
      faults = [], now = 1700000000, akismet = [Inr (Inr ''false'')], trace = []\<rparr>"

section \<open>Requests running concurrently\<close>

text \<open>
  The server handles each request in a goroutine of its own; the requests share nothing but
  the store, which executes one command at a time. A system is a list of trees and one
  world; a step performs the next effect of one tree against the world (\<open>step1\<close>), so a
  run of the system is an interleaving of the effects of its processes. The clock may also
  tick between two steps, and clients outside the list may have a command executed
  (\<open>env\<close> says which).
\<close>

primrec step1 :: "'a prog \<Rightarrow> world \<Rightarrow> ('a prog \<times> world) option" where
  "step1 (Return x) w = None"
| "step1 (Do c k) w = Some (k (fst (conn_Do c w)), snd (conn_Do c w))"
| "step1 (Now k) w = Some (k (fst (time_Now w)), snd (time_Now w))"
| "step1 (Sleep p) w = Some (p, time_Sleep w)"
| "step1 (PostForm u d k) w = Some (k (fst (http_PostForm u d w)), snd (http_PostForm u d w))"
| "step1 (Log l p) w = Some (p, log_Print l w)"
| "step1 Spin w = None"

inductive sys_step :: "(command \<Rightarrow> bool) \<Rightarrow> 'a prog list \<times> world \<Rightarrow> 'a prog list \<times> world \<Rightarrow> bool"
  for env :: "command \<Rightarrow> bool" where
  proc: "i < length ps \<Longrightarrow> step1 (ps ! i) w = Some (p', w') \<Longrightarrow> sys_step env (ps, w) (ps[i := p'], w')"
| tick: "sys_step env (ps, w) (ps, w\<lparr>now := now w + 1\<rparr>)"
| other: "env c \<Longrightarrow> sys_step env (ps, w) (ps, snd (conn_Do c w))"

text \<open>The commands that the functions of \<^verbatim>\<open>main.go\<close> send, each on a key of its kind.\<close>

definition program_command :: "command \<Rightarrow> bool" where
  "program_command c =
     (\<exists>host path cid fvs.
        c = GET (keyEnabled host path) \<or>
        c = SISMEMBER keyAutoEnable host \<or>
        c = SET (keyEnabled host path) ''true'' \<or>
        c = ZADD (keyAll host path) (sint (cid::int64)) (FormatInt (sint cid)) \<or>
        c = ZADD (keyApproved host path) (sint cid) (FormatInt (sint cid)) \<or>
        c = ZRANGEBYSCORE (keyApproved host path) MinusInf PlusInf 0 10 \<or>
        c = HMSET (keyComment host path cid) fvs \<or>
        c = HGETALL (keyComment host path cid))"

text \<open>The same without the promotion into an approved index.\<close>

definition plain_command :: "command \<Rightarrow> bool" where
  "plain_command c =
     (program_command c \<and>
      \<not> (\<exists>host path cid. c = ZADD (keyApproved host path) (sint (cid::int64)) (FormatInt (sint cid))))"

primrec all_cmds :: "(command \<Rightarrow> bool) \<Rightarrow> 'a prog \<Rightarrow> bool" where
  "all_cmds P (Return x) = True"
| "all_cmds P (Do c k) = (P c \<and> (\<forall>r. all_cmds P (k r)))"
| "all_cmds P (Now k) = (\<forall>t. all_cmds P (k t))"
| "all_cmds P (Sleep p) = all_cmds P p"
| "all_cmds P (PostForm u d k) = (\<forall>r. all_cmds P (k r))"
| "all_cmds P (Log l p) = all_cmds P p"
| "all_cmds P Spin = True"

text \<open>
  The invariant of the two indexes, and the order in which stores follow each other when
  no identifier leaves an index of all comments.
\<close>

definition approved_in_all :: "store \<Rightarrow> bool" where
  "approved_in_all s = (\<forall>host path. ApprovedIndex s host path \<subseteq> AllIndex s host path)"

definition grows :: "store \<Rightarrow> store \<Rightarrow> bool" where
  "grows s s' = (\<forall>host path. AllIndex s host path \<subseteq> AllIndex s' host path)"

text \<open>
  A change of the store is careful when it removes no identifier from an index of all
  comments and every identifier it adds to an approved index was in the index of all
  comments of the same thread before.
\<close>

definition careful :: "store \<Rightarrow> store \<Rightarrow> bool" where
  "careful s s' =
     (grows s s' \<and>
      (\<forall>host path. ApprovedIndex s' host path \<subseteq> ApprovedIndex s host path \<union> AllIndex s host path))"

text \<open>
  \<open>safe Q p s\<close>: the tree \<open>p\<close>, started when the store was \<open>s\<close> and run while other
  processes change the store without removing an identifier from an index of all comments,
  changes the store carefully with every call it makes, and returns only results \<open>x\<close>
  with \<open>Q x\<close> of the store at that time and later.
\<close>

primrec safe :: "('a \<Rightarrow> store \<Rightarrow> bool) \<Rightarrow> 'a prog \<Rightarrow> store \<Rightarrow> bool" where
  "safe Q (Return x) s = (\<forall>s'. grows s s' \<longrightarrow> Q x s')"
| "safe Q (Do c k) s =
     (\<forall>w. grows s (redis w) \<longrightarrow>
        careful (redis w) (redis (snd (conn_Do c w))) \<and>
        safe Q (k (fst (conn_Do c w))) (redis (snd (conn_Do c w))))"
| "safe Q (Now k) s = (\<forall>t. safe Q (k t) s)"
| "safe Q (Sleep p) s = safe Q p s"
| "safe Q (PostForm u d k) s = (\<forall>r. safe Q (k r) s)"
| "safe Q (Log l p) s = safe Q p s"
| "safe Q Spin s = True"


section \<open>Properties\<close>

subsection \<open>Decimal numbers and keys\<close>

lemma lt10_cases: "d < 10 \<Longrightarrow> d = 0 \<or> d = 1 \<or> d = 2 \<or> d = 3 \<or> d = 4 \<or> d = 5 \<or> d = 6 \<or> d = 7 \<or> d = 8 \<or> d = (9::nat)"
  by arith

lemma digit_char_digit: "d < 10 \<Longrightarrow> is_digit (digit_char d) \<and> digit_val (digit_char d) = d"
  by (drule lt10_cases) (auto simp: digit_char_def is_digit_def digit_val_def)

lemma is_digit_not_sign: "is_digit c \<Longrightarrow> c \<noteq> CHR ''+'' \<and> c \<noteq> CHR ''-''"
  by (auto simp: is_digit_def)

lemma is_digit_not_letter: "is_digit c \<Longrightarrow> c \<noteq> CHR ''l'' \<and> c \<noteq> CHR ''d'' \<and> c \<noteq> CHR ''e''"
  by (auto simp: is_digit_def)

lemma digits_nonempty: "digits n \<noteq> []"
  by (subst digits.simps) simp

lemma digits_all: "\<forall>c \<in> set (digits n). is_digit c"
proof (induction n rule: digits.induct)
  case (1 n)
  show ?case
  proof (cases "n < 10")
    case True
    then show ?thesis by (subst digits.simps) (simp add: digit_char_digit)
  next
    case False
    with 1 show ?thesis by (subst digits.simps) (simp add: digit_char_digit)
  qed
qed

lemma ParseUint_loop_append:
  "ParseUint_loop (xs @ ys) n =
     (case ParseUint_loop xs n of (v, None) \<Rightarrow> ParseUint_loop ys v | (v, Some e) \<Rightarrow> (v, Some e))"
  by (induction xs arbitrary: n) auto

lemma ParseUint_loop_digits: "n \<le> maxUint64 \<Longrightarrow> ParseUint_loop (digits n) 0 = (n, None)"
proof (induction n rule: digits.induct)
  case (1 n)
  show ?case
  proof (cases "n < 10")
    case True
    then show ?thesis using 1(2) by (subst digits.simps) (simp add: digit_char_digit maxUint64_def)
  next
    case False
    have a: "n div 10 \<le> maxUint64" using 1(2) by simp
    have b: "\<not> n div 10 \<ge> maxUint64 div 10 + 1" using 1(2) by (simp add: maxUint64_def)
    have c: "n div 10 * 10 + n mod 10 = n" by simp
    have d: "n mod 10 < 10" by simp
    show ?thesis
      using False 1(1)[OF False a] b c 1(2) d
      by (subst digits.simps) (simp add: ParseUint_loop_append digit_char_digit)
  qed
qed

lemma ParseInt_FormatInt: "ParseInt (FormatInt (sint (w::int64))) = (w, None)"
proof (cases "sint w < 0")
  case True
  have lo: "- (2 ^ 63) \<le> sint w" using sint_ge[of w] by simp
  let ?n = "nat (- sint w)"
  have n: "?n \<le> 2 ^ 63" using lo by (simp add: nat_le_iff)
  then have m: "?n \<le> maxUint64" by (simp add: maxUint64_def)
  have "of_nat ?n = (- w :: int64)"
    using True by (simp add: of_nat_nat)
  then show ?thesis
    using True n ParseUint_loop_digits[OF m] digits_nonempty[of ?n]
    by (simp add: ParseInt_def FormatInt_def ParseUint_def Let_def)
next
  case False
  have hi: "sint w < 2 ^ 63" using sint_lt[of w] by simp
  let ?n = "nat (sint w)"
  have n: "?n < 2 ^ 63" using hi False by (simp add: nat_less_iff)
  then have m: "?n \<le> maxUint64" by (simp add: maxUint64_def)
  have h: "hd (digits ?n) \<in> set (digits ?n)" using digits_nonempty by simp
  have "of_nat ?n = (w :: int64)"
    using False by (simp add: of_nat_nat)
  then show ?thesis
    using False n ParseUint_loop_digits[OF m] digits_nonempty[of ?n] is_digit_not_sign[of "hd (digits ?n)"] digits_all[of ?n] h
    by (auto simp add: ParseInt_def FormatInt_def ParseUint_def Let_def)
qed

lemma FormatInt_inj: "FormatInt (sint (a::int64)) = FormatInt (sint b) \<Longrightarrow> a = b"
  by (metis ParseInt_FormatInt fst_conv)

lemma last_digits: "is_digit (last (digits n))"
  using digits_all[of n] digits_nonempty[of n] last_in_set by blast

lemma last_FormatInt_digit: "is_digit (last (FormatInt i))"
  by (simp add: FormatInt_def last_digits digits_nonempty)

lemma FormatInt_nonempty: "FormatInt i \<noteq> []"
  by (simp add: FormatInt_def digits_nonempty)

lemma key_suffix: "xs @ ys = xs' @ ys' \<Longrightarrow> length ys = length ys' \<Longrightarrow> ys = ys'"
  by simp

lemma keyAll_neq_keyApproved: "keyAll h p \<noteq> keyApproved h' p'"
proof
  assume "keyAll h p = keyApproved h' p'"
  then have "last (keyAll h p) = last (keyApproved h' p')" by simp
  then show False by (simp add: keyAll_def keyApproved_def)
qed

lemma keyAll_neq_keyEnabled: "keyAll h p \<noteq> keyEnabled h' p'"
proof
  assume "keyAll h p = keyEnabled h' p'"
  then have "last (keyAll h p) = last (keyEnabled h' p')" by simp
  then show False by (simp add: keyAll_def keyEnabled_def)
qed

lemma keyAll_neq_keyComment: "keyAll h p \<noteq> keyComment h' p' i"
proof
  assume "keyAll h p = keyComment h' p' i"
  then have "last (keyAll h p) = last (keyComment h' p' i)" by simp
  then show False using last_FormatInt_digit[of "sint i"] is_digit_not_letter[of "last (FormatInt (sint i))"]
    by (simp add: keyAll_def keyComment_def FormatInt_nonempty)
qed

lemma keyApproved_neq_keyEnabled: "keyApproved h p \<noteq> keyEnabled h' p'"
proof
  assume "keyApproved h p = keyEnabled h' p'"
  then have "rev (keyApproved h p) = rev (keyEnabled h' p')" by simp
  then show False by (simp add: keyApproved_def keyEnabled_def)
qed

lemma keyApproved_neq_keyComment: "keyApproved h p \<noteq> keyComment h' p' i"
proof
  assume "keyApproved h p = keyComment h' p' i"
  then have "last (keyApproved h p) = last (keyComment h' p' i)" by simp
  then show False using last_FormatInt_digit[of "sint i"] is_digit_not_letter[of "last (FormatInt (sint i))"]
    by (simp add: keyApproved_def keyComment_def FormatInt_nonempty)
qed



lemma fails_0: "fails w 0 = (\<exists>fs. faults w = True # fs)"
  by (cases "faults w") (auto simp: fails_def)

lemma conn_reply_alt:
  "conn_reply c w =
     (if fails w 0 then Inl ErrConn
      else case fst (redis_exec c (redis w)) of Error e \<Rightarrow> Inl (RedisError e) | r \<Rightarrow> Inr r)"
  by (cases "faults w"; cases "hd (faults w)") (auto simp: fails_0 conn_reply_def)

lemma conn_Do_proj:
  "fst (conn_Do c w) = conn_reply c w"
  "redis (snd (conn_Do c w)) = (if fails w 0 then redis w else snd (redis_exec c (redis w)))"
  "faults (snd (conn_Do c w)) = tl (faults w)"
  "now (snd (conn_Do c w)) = now w"
  "akismet (snd (conn_Do c w)) = akismet w"
  "trace (snd (conn_Do c w)) = trace w @ [EDo c (conn_reply c w)]"
  by (cases "faults w"; cases "hd (faults w)"; auto simp: fails_0 conn_Do_def)+

lemma fails_conn_Do: "fails (snd (conn_Do c w)) n = fails w (Suc n)"
  by (cases "faults w") (auto simp: fails_def conn_Do_def)

lemmas exec_simps = conn_Do_proj conn_reply_alt fails_conn_Do

lemma keyEnabled_neq_keyComment: "keyEnabled h p \<noteq> keyComment h' p' i"
proof
  assume "keyEnabled h p = keyComment h' p' i"
  then have "last (keyEnabled h p) = last (keyComment h' p' i)" by simp
  then show False using last_FormatInt_digit[of "sint i"] is_digit_not_letter[of "last (FormatInt (sint i))"]
    by (simp add: keyEnabled_def keyComment_def FormatInt_nonempty)
qed

lemma keyAutoEnable_neq:
  "keyAutoEnable \<noteq> keyEnabled h p"
  "keyAutoEnable \<noteq> keyAll h p"
  "keyAutoEnable \<noteq> keyApproved h p"
  "keyAutoEnable \<noteq> keyComment h p i"
  by (simp_all add: keyAutoEnable_def keyEnabled_def keyAll_def keyApproved_def keyComment_def)

lemmas key_neq =
  keyAll_neq_keyApproved keyAll_neq_keyApproved[symmetric]
  keyAll_neq_keyEnabled keyAll_neq_keyEnabled[symmetric]
  keyAll_neq_keyComment keyAll_neq_keyComment[symmetric]
  keyApproved_neq_keyEnabled keyApproved_neq_keyEnabled[symmetric]
  keyApproved_neq_keyComment keyApproved_neq_keyComment[symmetric]
  keyEnabled_neq_keyComment keyEnabled_neq_keyComment[symmetric]
  keyAutoEnable_neq keyAutoEnable_neq[symmetric]

lemma sint_word_of_int64: "- (2 ^ 63) \<le> i \<Longrightarrow> i < 2 ^ 63 \<Longrightarrow> sint (word_of_int i :: int64) = i"
  by (simp add: sint_sbintrunc' signed_take_bit_int_eq_self)

lemma sint_range64: "- (2 ^ 63) \<le> sint (w::int64) \<and> sint w < 2 ^ 63"
  using sint_ge[of w] sint_lt[of w] by simp

lemma ParseInt_FormatInt_int:
  "- (2 ^ 63) \<le> i \<Longrightarrow> i < 2 ^ 63 \<Longrightarrow> sint (fst (ParseInt (FormatInt i))) = i"
  using ParseInt_FormatInt[of "word_of_int i"] by (simp add: sint_word_of_int64)

text \<open>The sorted-set and hash operations keep the representation.\<close>

lemma snd_set_zadd: "snd ` set (zadd sc m zs) = insert m (snd ` set zs)"
  by (auto simp: zadd_def set_insort_key)

lemma sorted_zadd: "sorted zs \<Longrightarrow> sorted (zadd sc m zs)"
  unfolding zadd_def by (simp add: sorted_insort sorted_wrt_filter)

lemma distinct_zadd: "distinct (map snd zs) \<Longrightarrow> distinct (map snd (zadd sc m zs))"
proof -
  assume d: "distinct (map snd zs)"
  let ?f = "filter (\<lambda>e. snd e \<noteq> m) zs"
  have "distinct (map snd ?f)" using d by (simp add: distinct_map_filter)
  moreover have "m \<notin> snd ` set ?f" by auto
  ultimately have "distinct (map snd (insort (sc, m) ?f))"
    by (simp add: distinct_map set_insort_key distinct_insort inj_on_def)
  then show ?thesis by (simp add: zadd_def)
qed

lemma set_zadd: "set (zadd sc m zs) = insert (sc, m) {e \<in> set zs. snd e \<noteq> m}"
  by (auto simp: zadd_def set_insort_key)

lemma index_ok_zadd:
  assumes "index_ok (Some (RZSet zs))"
  shows "index_ok (Some (RZSet (zadd (sint (cid::int64)) (FormatInt (sint cid)) zs)))"
proof -
  have "sorted zs" "distinct (map snd zs)"
    and a: "\<forall>e \<in> set zs. snd e = FormatInt (fst e) \<and> - (2 ^ 63) \<le> fst e \<and> fst e < 2 ^ 63"
    using assms by (simp_all add: index_ok_def list_all_iff)
  then have "sorted (zadd (sint cid) (FormatInt (sint cid)) zs)"
    and "distinct (map snd (zadd (sint cid) (FormatInt (sint cid)) zs))"
    by (simp_all add: sorted_zadd distinct_zadd)
  moreover have "\<forall>e \<in> set (zadd (sint cid) (FormatInt (sint cid)) zs).
      snd e = FormatInt (fst e) \<and> - (2 ^ 63) \<le> fst e \<and> fst e < 2 ^ 63"
    using a sint_range64[of cid] by (simp add: set_zadd)
  ultimately show ?thesis by (simp add: index_ok_def list_all_iff)
qed

lemma index_ok_single: "index_ok (Some (RZSet [(sint (cid::int64), FormatInt (sint cid))]))"
  using sint_range64[of cid] by (simp add: index_ok_def)

lemma fst_set_hset: "fst ` set (hset f v h) = insert f (fst ` set h)"
  by (induction h) (auto split: if_splits, force+)

lemma distinct_hset: "distinct (map fst h) \<Longrightarrow> distinct (map fst (hset f v h))"
  by (induction h) (auto simp: fst_set_hset)

lemma distinct_hmset: "distinct (map fst h) \<Longrightarrow> distinct (map fst (hmset fvs h))"
  unfolding hmset_def by (induction fvs arbitrary: h) (auto simp: distinct_hset)

lemma map_of_hset: "map_of (hset f v h) = (map_of h)(f \<mapsto> v)"
  by (induction h) (auto simp: fun_eq_iff)

lemma map_of_hmset: "map_of (hmset fvs h) = map_of h ++ map_of (rev fvs)"
  unfolding hmset_def
  by (induction fvs arbitrary: h) (auto simp: map_of_hset fun_eq_iff map_add_def split: option.splits)

subsection \<open>What \<^verbatim>\<open>getComments\<close> returns\<close>

lemma even_hgetall: "even (length (hgetall h))"
  by (induction h) (auto simp: hgetall_def)

lemma hgetall_Cons: "hgetall ((f, v) # h) = Bulk f # Bulk v # hgetall h"
  by (simp add: hgetall_def)

lemma ScanStruct_loop_hgetall:
  "distinct (map fst h) \<Longrightarrow>
   ScanStruct_loop (hgetall h) c =
     Inr \<lparr>comment_ID = comment_ID c,
          comment_Author = (case map_of h ''comment_author'' of None \<Rightarrow> comment_Author c | Some v \<Rightarrow> v),
          comment_Content = (case map_of h ''comment_content'' of None \<Rightarrow> comment_Content c | Some v \<Rightarrow> v)\<rparr>"
proof (induction h arbitrary: c)
  case Nil
  then show ?case by (simp add: hgetall_def)
next
  case (Cons a h)
  obtain f v where a: "a = (f, v)" by (cases a)
  have nf: "map_of h f = None" using Cons.prems a by (simp add: map_of_eq_None_iff)
  have d: "distinct (map fst h)" using Cons.prems by simp
  show ?case
    using nf by (auto simp: a hgetall_Cons Cons.IH[OF d] split: option.splits)
qed

lemma ScanStruct_hgetall:
  "distinct (map fst h) \<Longrightarrow>
   ScanStruct (hgetall h) \<lparr>comment_ID = [], comment_Author = [], comment_Content = []\<rparr> =
     Inr \<lparr>comment_ID = [],
          comment_Author = field (Some h) ''comment_author'',
          comment_Content = field (Some h) ''comment_content''\<rparr>"
  by (simp add: ScanStruct_def even_hgetall ScanStruct_loop_hgetall field_def split: option.splits)

lemma getComments_loop_run:
  assumes "\<forall>n. \<not> fails w n"
    and "\<forall>i \<in> set ids. record_ok (redis w (keyComment host path (fst (ParseInt i))))"
  shows "fst (run (getComments_loop host path ids (Slice acc)) w) =
           Some (Slice (acc @ map (entry (redis w) host path) ids), None) \<and>
         redis (snd (run (getComments_loop host path ids (Slice acc)) w)) = redis w"
  using assms
proof (induction ids arbitrary: w acc)
  case Nil
  then show ?case by simp
next
  case (Cons i ids)
  let ?k = "keyComment host path (fst (ParseInt i))"
  let ?w1 = "snd (conn_Do (HGETALL ?k) w)"
  have ok: "record_ok (redis w ?k)" using Cons.prems by simp
  have nf: "\<not> fails w 0" using Cons.prems by simp
  have r1: "redis ?w1 = redis w" using nf by (simp add: exec_simps split: option.splits rvalue.splits)
  have f1: "\<forall>n. \<not> fails ?w1 n" using Cons.prems by (simp add: exec_simps)
  have p1: "\<forall>i \<in> set ids. record_ok (redis ?w1 (keyComment host path (fst (ParseInt i))))"
    using Cons.prems r1 by simp
  note IH = Cons.IH[OF f1 p1, unfolded r1]
  consider (none) "redis w ?k = None" | (hash) h where "redis w ?k = Some (RHash h)" "distinct (map fst h)"
    using ok by (auto simp: record_ok_def split: option.splits rvalue.splits)
  then show ?case
  proof cases
    case none
    then show ?thesis
      using nf IH
      by (simp add: exec_simps redis_Values_def ScanStruct_def entry_def CommentRecord_def field_def)
  next
    case hash
    then show ?thesis
      using nf IH
      by (simp add: exec_simps redis_Values_def ScanStruct_hgetall entry_def CommentRecord_def)
  qed
qed

lemma strings_of_Bulk: "strings_of (map Bulk xs) = Inr xs"
  by (induction xs) auto

lemma getComments_run:
  assumes "\<forall>n. \<not> fails w n"
    and "schema (redis w)"
  shows "fst (run (getComments host path) w) =
           Some (Slice (map (entry (redis w) host path) (take 10 (index_list (redis w (keyApproved host path))))), None) \<and>
         redis (snd (run (getComments host path) w)) = redis w"
proof -
  let ?c = "ZRANGEBYSCORE (keyApproved host path) MinusInf PlusInf 0 10"
  let ?w1 = "snd (conn_Do ?c w)"
  have nf: "\<not> fails w 0" using assms by simp
  have r1: "redis ?w1 = redis w" using nf by (simp add: exec_simps split: option.splits rvalue.splits)
  have f1: "\<forall>n. \<not> fails ?w1 n" using assms by (simp add: exec_simps)
  have rec: "\<forall>i \<in> set ids. record_ok (redis ?w1 (keyComment host path (fst (ParseInt i))))" for ids
    using assms(2) r1 by (simp add: schema_def)
  have idx: "index_ok (redis w (keyApproved host path))" using assms(2) by (simp add: schema_def)
  have rep: "redis_Strings (fst (conn_Do ?c w)) = Inr (take 10 (index_list (redis w (keyApproved host path))))"
    using nf idx
    by (auto simp: exec_simps redis_Strings_def index_ok_def index_list_def zrangebyscore_def
        above_def below_def strings_of_Bulk split: option.splits rvalue.splits)
  show ?thesis
    using getComments_loop_run[OF f1 rec, of _ "[]"] rep
    by (simp add: getComments_def r1)
qed

lemma getComments_loop_trace:
  assumes "\<forall>n. \<not> fails w n"
    and "\<forall>i \<in> set ids. record_ok (redis w (keyComment host path (fst (ParseInt i))))"
  shows "trace (snd (run (getComments_loop host path ids (Slice acc)) w)) =
           trace w @
           map (\<lambda>i. EDo (HGETALL (keyComment host path (fst (ParseInt i))))
                      (Inr (Array (case CommentRecord (redis w) host path (fst (ParseInt i)) of
                                     None \<Rightarrow> [] | Some h \<Rightarrow> hgetall h)))) ids"
  using assms
proof (induction ids arbitrary: w acc)
  case Nil
  then show ?case by simp
next
  case (Cons i ids)
  let ?k = "keyComment host path (fst (ParseInt i))"
  let ?w1 = "snd (conn_Do (HGETALL ?k) w)"
  have ok: "record_ok (redis w ?k)" using Cons.prems by simp
  have nf: "\<not> fails w 0" using Cons.prems by simp
  have r1: "redis ?w1 = redis w" using nf by (simp add: exec_simps split: option.splits rvalue.splits)
  have f1: "\<forall>n. \<not> fails ?w1 n" using Cons.prems by (simp add: exec_simps)
  have p1: "\<forall>i \<in> set ids. record_ok (redis ?w1 (keyComment host path (fst (ParseInt i))))"
    using Cons.prems r1 by simp
  note IH = Cons.IH[OF f1 p1, unfolded r1]
  consider (none) "redis w ?k = None" | (hash) h where "redis w ?k = Some (RHash h)" "distinct (map fst h)"
    using ok by (auto simp: record_ok_def split: option.splits rvalue.splits)
  then show ?case
  proof cases
    case none
    then show ?thesis
      using nf IH
      by (simp add: exec_simps redis_Values_def ScanStruct_def CommentRecord_def)
  next
    case hash
    then show ?thesis
      using nf IH
      by (simp add: exec_simps redis_Values_def ScanStruct_hgetall CommentRecord_def)
  qed
qed

lemma getComments_trace:
  assumes "\<forall>n. \<not> fails w n"
    and "schema (redis w)"
  shows "trace (snd (run (getComments host path) w)) =
           trace w @
           EDo (ZRANGEBYSCORE (keyApproved host path) MinusInf PlusInf 0 10)
             (Inr (Array (map Bulk (take 10 (index_list (redis w (keyApproved host path))))))) #
           map (\<lambda>i. EDo (HGETALL (keyComment host path (fst (ParseInt i))))
                      (Inr (Array (case CommentRecord (redis w) host path (fst (ParseInt i)) of
                                     None \<Rightarrow> [] | Some h \<Rightarrow> hgetall h))))
             (take 10 (index_list (redis w (keyApproved host path))))"
proof -
  let ?c = "ZRANGEBYSCORE (keyApproved host path) MinusInf PlusInf 0 10"
  let ?w1 = "snd (conn_Do ?c w)"
  have nf: "\<not> fails w 0" using assms by simp
  have r1: "redis ?w1 = redis w" using nf by (simp add: exec_simps split: option.splits rvalue.splits)
  have f1: "\<forall>n. \<not> fails ?w1 n" using assms by (simp add: exec_simps)
  have rec: "\<forall>i \<in> set ids. record_ok (redis ?w1 (keyComment host path (fst (ParseInt i))))" for ids
    using assms(2) r1 by (simp add: schema_def)
  have idx: "index_ok (redis w (keyApproved host path))" using assms(2) by (simp add: schema_def)
  have rep: "redis_Strings (fst (conn_Do ?c w)) = Inr (take 10 (index_list (redis w (keyApproved host path))))"
    using nf idx
    by (auto simp: exec_simps redis_Strings_def index_ok_def index_list_def zrangebyscore_def
        above_def below_def strings_of_Bulk split: option.splits rvalue.splits)
  have rp: "fst (conn_Do ?c w) = Inr (Array (map Bulk (take 10 (index_list (redis w (keyApproved host path))))))"
    using nf idx
    by (auto simp: exec_simps index_ok_def index_list_def zrangebyscore_def
        above_def below_def split: option.splits rvalue.splits)
  have t1: "trace ?w1 = trace w @ [EDo ?c (Inr (Array (map Bulk (take 10 (index_list (redis w (keyApproved host path)))))))]"
    using rp by (simp add: conn_Do_def)
  show ?thesis
    using getComments_loop_trace[OF f1 rec, of _ "[]"] rep
    by (simp add: getComments_def r1 t1)
qed


lemma ParseInt_5: "ParseInt ''5'' = (5, None)"
  by (simp add: ParseInt_def ParseUint_def is_digit_def digit_val_def maxUint64_def)

lemma FormatInt_5: "FormatInt (sint (5::int64)) = ''5''"
  by (simp add: FormatInt_def digits.simps digit_char_def)

text \<open>
  Claim C6, as stated, fails: the approved index of the thread holds the identifier 5, no
  comment record is stored for it, the store answers every call, and \<^verbatim>\<open>getComments\<close> returns
  no error but a list with an entry for 5 whose author and content are empty. (\<^verbatim>\<open>HGETALL\<close> of
  a missing key is an empty array, which \<^verbatim>\<open>redis.Values\<close> and \<^verbatim>\<open>redis.ScanStruct\<close> accept.)
\<close>

theorem getComments_missing_record_counterexample:
  "''5'' \<in> ApprovedIndex [keyApproved ''example.com'' ''/post'' \<mapsto> RZSet [(5, ''5'')]] ''example.com'' ''/post'' \<and>
   CommentRecord [keyApproved ''example.com'' ''/post'' \<mapsto> RZSet [(5, ''5'')]] ''example.com'' ''/post'' 5 = None \<and>
   fst (run (getComments ''example.com'' ''/post'')
          \<lparr>redis = [keyApproved ''example.com'' ''/post'' \<mapsto> RZSet [(5, ''5'')]],
           faults = [], now = 0, akismet = [], trace = []\<rparr>) =
     Some (Slice [\<lparr>comment_ID = ''5'', comment_Author = [], comment_Content = []\<rparr>], None)"
  by (simp add: ApprovedIndex_def zmembers_def CommentRecord_def keyApproved_neq_keyComment[symmetric]
      getComments_def exec_simps fails_def redis_Strings_def zrangebyscore_def above_def below_def
      ParseInt_5 redis_Values_def ScanStruct_def EscapeString_def)

lemma schema_empty: "schema Map.empty"
  by (simp add: schema_def set_ok_def flag_ok_def index_ok_def record_ok_def)

lemma schema_upd_auto: "schema s \<Longrightarrow> schema (s(keyAutoEnable \<mapsto> RSet ms))"
  by (simp add: schema_def key_neq set_ok_def)

lemma schema_upd_enabled: "schema s \<Longrightarrow> schema (s(keyEnabled h p \<mapsto> RString v))"
  by (simp add: schema_def key_neq flag_ok_def)

lemma schema_upd_all: "schema s \<Longrightarrow> index_ok (Some v) \<Longrightarrow> schema (s(keyAll h p \<mapsto> v))"
  by (simp add: schema_def key_neq)

lemma schema_upd_approved: "schema s \<Longrightarrow> index_ok (Some v) \<Longrightarrow> schema (s(keyApproved h p \<mapsto> v))"
  by (simp add: schema_def key_neq)

lemma schema_upd_comment: "schema s \<Longrightarrow> record_ok (Some v) \<Longrightarrow> schema (s(keyComment h p i \<mapsto> v))"
  by (simp add: schema_def key_neq)

lemma index_list_members: "set (index_list v) = zmembers v"
  by (auto simp: index_list_def zmembers_def split: option.splits rvalue.splits)

text \<open>
  Claim C6, amended: when the store answers every call and follows the schema, and the
  approved index of the thread holds, among the ten identifiers that are listed, one whose
  comment record is missing, \<^verbatim>\<open>getComments\<close> returns no error: its list has an entry for that
  identifier with empty author and empty content.
\<close>

theorem getComments_missing_record:
  assumes "\<forall>n. \<not> fails w n" and "schema (redis w)"
    and "i \<in> set (take 10 (index_list (redis w (keyApproved host path))))"
    and "CommentRecord (redis w) host path (fst (ParseInt i)) = None"
  shows "\<exists>cs. fst (run (getComments host path) w) = Some (Slice cs, None) \<and>
              \<lparr>comment_ID = i, comment_Author = [], comment_Content = []\<rparr> \<in> set cs"
proof -
  have e: "entry (redis w) host path i = \<lparr>comment_ID = i, comment_Author = [], comment_Content = []\<rparr>"
    using assms(4) by (simp add: entry_def field_def EscapeString_def)
  have "entry (redis w) host path i
      \<in> set (map (entry (redis w) host path) (take 10 (index_list (redis w (keyApproved host path)))))"
    using assms(3) by simp
  then show ?thesis
    using getComments_run[OF assms(1,2), of host path] unfolding e by blast
qed

lemma index_ok_5: "index_ok (Some (RZSet [(5, ''5'')]))"
  by (simp add: index_ok_def FormatInt_def digits.simps digit_char_def)

theorem getComments_missing_record_witness:
  "\<exists>cs. fst (run (getComments ''example.com'' ''/post'')
                \<lparr>redis = [keyApproved ''example.com'' ''/post'' \<mapsto> RZSet [(5, ''5'')]],
                 faults = [], now = 0, akismet = [], trace = []\<rparr>) = Some (Slice cs, None) \<and>
        \<lparr>comment_ID = ''5'', comment_Author = [], comment_Content = []\<rparr> \<in> set cs"
  using getComments_missing_record[of
      "\<lparr>redis = [keyApproved ''example.com'' ''/post'' \<mapsto> RZSet [(5, ''5'')]],
        faults = [], now = 0, akismet = [], trace = []\<rparr>" "''5''" "''example.com''" "''/post''"]
  by (simp add: fails_def schema_upd_approved schema_empty index_ok_5 index_list_def
      CommentRecord_def key_neq ParseInt_5)

lemma index_ok_scores:
  assumes "index_ok (Some (RZSet zs))"
  shows "map (\<lambda>m. sint (fst (ParseInt m))) (map snd zs) = map fst zs"
    and "sorted_wrt (<) (map fst zs)"
proof -
  have s: "sorted zs" and d: "distinct (map snd zs)"
    and a: "\<forall>e \<in> set zs. snd e = FormatInt (fst e) \<and> - (2 ^ 63) \<le> fst e \<and> fst e < 2 ^ 63"
    using assms by (simp_all add: index_ok_def list_all_iff)
  show "map (\<lambda>m. sint (fst (ParseInt m))) (map snd zs) = map fst zs"
    using a by (simp add: ParseInt_FormatInt_int)
  have "sorted (map fst zs)"
    using s by (induction zs) (fastforce simp: less_eq_prod_def)+
  moreover have "distinct (map fst zs)"
  proof -
    have "inj_on fst (set zs)"
    proof (rule inj_onI)
      fix x y assume "x \<in> set zs" "y \<in> set zs" "fst x = fst y"
      then have "snd x = snd y" using a by simp
      then show "x = y" using \<open>fst x = fst y\<close> by (simp add: prod_eq_iff)
    qed
    moreover have "distinct zs" using d by (simp add: distinct_map)
    ultimately show ?thesis by (simp add: distinct_map)
  qed
  ultimately show "sorted_wrt (<) (map fst zs)"
    by (simp add: strict_sorted_iff)
qed

lemma index_list_ascending:
  assumes "index_ok v"
  shows "sorted_wrt (<) (map (\<lambda>m. sint (fst (ParseInt m))) (index_list v))"
proof (cases v)
  case None
  then show ?thesis by (simp add: index_list_def)
next
  case (Some x)
  then obtain zs where "v = Some (RZSet zs)"
    using assms by (cases x) (auto simp: index_ok_def)
  then have v: "index_list v = map snd zs" and ok: "index_ok (Some (RZSet zs))"
    using assms by (simp_all add: index_list_def)
  show ?thesis
    unfolding v index_ok_scores(1)[OF ok] by (rule index_ok_scores(2)[OF ok])
qed

text \<open>
  Claim C7: when the store answers every call and follows the schema, \<^verbatim>\<open>getComments\<close> returns
  no error and a slice that is not \<^verbatim>\<open>nil\<close>, of at most 10 entries. Their identifiers are the
  first ten members of the approved index in the server's order, which is strictly ascending
  in the numeric identifier; the author and the content of an entry are those of the record
  stored for its identifier, HTML-escaped. The calls made are the range query and one
  \<^verbatim>\<open>HGETALL\<close> for every entry, in that order, and the store is left as it was. On a thread
  with no approved comment the slice is empty, and not \<^verbatim>\<open>nil\<close>.
\<close>

theorem getComments_listing:
  assumes "\<forall>n. \<not> fails w n" and "schema (redis w)"
  shows "\<exists>cs. fst (run (getComments host path) w) = Some (Slice cs, None) \<and>
           length cs \<le> 10 \<and>
           map comment_ID cs = take 10 (index_list (redis w (keyApproved host path))) \<and>
           (\<forall>c \<in> set cs.
              comment_Author c = EscapeString (field (CommentRecord (redis w) host path
                                   (fst (ParseInt (comment_ID c)))) ''comment_author'') \<and>
              comment_Content c = EscapeString (field (CommentRecord (redis w) host path
                                   (fst (ParseInt (comment_ID c)))) ''comment_content'')) \<and>
           set (index_list (redis w (keyApproved host path))) = ApprovedIndex (redis w) host path \<and>
           sorted_wrt (<) (map (\<lambda>m. sint (fst (ParseInt m))) (index_list (redis w (keyApproved host path)))) \<and>
           sorted_wrt (<) (map (\<lambda>c. sint (fst (ParseInt (comment_ID c)))) cs) \<and>
           (ApprovedIndex (redis w) host path = {} \<longrightarrow> cs = []) \<and>
           redis (snd (run (getComments host path) w)) = redis w \<and>
           trace (snd (run (getComments host path) w)) =
             trace w @
             EDo (ZRANGEBYSCORE (keyApproved host path) MinusInf PlusInf 0 10)
               (Inr (Array (map Bulk (map comment_ID cs)))) #
             map (\<lambda>c. EDo (HGETALL (keyComment host path (fst (ParseInt (comment_ID c)))))
                        (Inr (Array (case CommentRecord (redis w) host path (fst (ParseInt (comment_ID c))) of
                                       None \<Rightarrow> [] | Some h \<Rightarrow> hgetall h)))) cs"
proof -
  let ?ms = "index_list (redis w (keyApproved host path))"
  let ?cs = "map (entry (redis w) host path) (take 10 ?ms)"
  have idx: "index_ok (redis w (keyApproved host path))" using assms(2) by (simp add: schema_def)
  have r: "fst (run (getComments host path) w) = Some (Slice ?cs, None)"
    and st: "redis (snd (run (getComments host path) w)) = redis w"
    using getComments_run[OF assms] by simp_all
  have ids: "map comment_ID ?cs = take 10 ?ms" by (simp add: entry_def comp_def)
  have fl: "\<forall>c \<in> set ?cs.
              comment_Author c = EscapeString (field (CommentRecord (redis w) host path
                                   (fst (ParseInt (comment_ID c)))) ''comment_author'') \<and>
              comment_Content c = EscapeString (field (CommentRecord (redis w) host path
                                   (fst (ParseInt (comment_ID c)))) ''comment_content'')"
    by (auto simp: entry_def)
  have asc: "sorted_wrt (<) (map (\<lambda>m. sint (fst (ParseInt m))) ?ms)"
    using index_list_ascending[OF idx] .
  have "map (\<lambda>c. sint (fst (ParseInt (comment_ID c)))) ?cs = take 10 (map (\<lambda>m. sint (fst (ParseInt m))) ?ms)"
    by (simp add: entry_def comp_def take_map)
  then have asc': "sorted_wrt (<) (map (\<lambda>c. sint (fst (ParseInt (comment_ID c)))) ?cs)"
    using asc by (simp add: sorted_wrt_take)
  have mem: "set ?ms = ApprovedIndex (redis w) host path"
    by (simp add: index_list_members ApprovedIndex_def)
  have emp: "ApprovedIndex (redis w) host path = {} \<longrightarrow> ?cs = []"
    using mem by auto
  have tr: "trace (snd (run (getComments host path) w)) =
             trace w @
             EDo (ZRANGEBYSCORE (keyApproved host path) MinusInf PlusInf 0 10)
               (Inr (Array (map Bulk (map comment_ID ?cs)))) #
             map (\<lambda>c. EDo (HGETALL (keyComment host path (fst (ParseInt (comment_ID c)))))
                        (Inr (Array (case CommentRecord (redis w) host path (fst (ParseInt (comment_ID c))) of
                                       None \<Rightarrow> [] | Some h \<Rightarrow> hgetall h)))) ?cs"
    unfolding getComments_trace[OF assms] ids by (simp add: entry_def comp_def)
  have len: "length ?cs \<le> 10" by simp
  show ?thesis
    using r len ids fl mem asc asc' emp st tr by (intro exI[of _ ?cs] conjI)
qed

subsection \<open>\<^verbatim>\<open>autoEnabled\<close> and \<^verbatim>\<open>autoApproveComment\<close>\<close>

text \<open>
  Claim C3: the resolution of \<^verbatim>\<open>autoEnabled\<close>. (1) When the flag of the thread is present
  with a boolean value and the read succeeds, that value is returned and the only call is
  the \<^verbatim>\<open>GET\<close>: nothing is written. (2) When the flag is absent, the host is a member of the
  auto-enable set and both reads succeed, true is returned whether or not the \<^verbatim>\<open>SET\<close> of the
  flag fails; the flag is \<^verbatim>\<open>"true"\<close> afterwards unless that call failed. (3) When the flag is
  absent and the host is no member, false is returned after the two reads and the store is
  as before: no flag is written.
\<close>

theorem autoEnabled_resolution:
  "(EnablementFlag (redis w) host path = Some v \<and> ParseBool v = Inr b \<and> \<not> fails w 0 \<longrightarrow>
      fst (run (autoEnabled host path) w) = Some (b, None) \<and>
      redis (snd (run (autoEnabled host path) w)) = redis w \<and>
      trace (snd (run (autoEnabled host path) w)) =
        trace w @ [EDo (GET (keyEnabled host path)) (Inr (Bulk v))]) \<and>
   (redis w (keyEnabled host path) = None \<and> host \<in> AutoEnableSet (redis w) \<and>
    \<not> fails w 0 \<and> \<not> fails w 1 \<longrightarrow>
      fst (run (autoEnabled host path) w) = Some (True, None) \<and>
      redis (snd (run (autoEnabled host path) w)) =
        (if fails w 2 then redis w else (redis w)(keyEnabled host path \<mapsto> RString ''true'')) \<and>
      trace (snd (run (autoEnabled host path) w)) =
        trace w @ [EDo (GET (keyEnabled host path)) (Inr Nil),
                   EDo (SISMEMBER keyAutoEnable host) (Inr (Integer 1)),
                   EDo (SET (keyEnabled host path) ''true'')
                     (if fails w 2 then Inl ErrConn else Inr (Status ''OK''))]) \<and>
   (redis w (keyEnabled host path) = None \<and> host \<notin> AutoEnableSet (redis w) \<and>
    (redis w keyAutoEnable = None \<or> (\<exists>ms. redis w keyAutoEnable = Some (RSet ms))) \<and>
    \<not> fails w 0 \<and> \<not> fails w 1 \<longrightarrow>
      fst (run (autoEnabled host path) w) = Some (False, None) \<and>
      redis (snd (run (autoEnabled host path) w)) = redis w \<and>
      trace (snd (run (autoEnabled host path) w)) =
        trace w @ [EDo (GET (keyEnabled host path)) (Inr Nil),
                   EDo (SISMEMBER keyAutoEnable host) (Inr (Integer 0))])"
proof (intro conjI impI)
  assume a: "EnablementFlag (redis w) host path = Some v \<and> ParseBool v = Inr b \<and> \<not> fails w 0"
  then have k: "redis w (keyEnabled host path) = Some (RString v)"
    by (auto simp: EnablementFlag_def split: option.splits rvalue.splits)
  show "fst (run (autoEnabled host path) w) = Some (b, None)"
    using a k by (simp add: autoEnabled_def exec_simps redis_Bool_def)
  show "redis (snd (run (autoEnabled host path) w)) = redis w"
    using a k by (simp add: autoEnabled_def exec_simps redis_Bool_def)
  show "trace (snd (run (autoEnabled host path) w)) =
        trace w @ [EDo (GET (keyEnabled host path)) (Inr (Bulk v))]"
    using a k by (simp add: autoEnabled_def exec_simps redis_Bool_def)
next
  assume a: "redis w (keyEnabled host path) = None \<and> host \<in> AutoEnableSet (redis w) \<and>
    \<not> fails w 0 \<and> \<not> fails w 1"
  then obtain ms where ms: "redis w keyAutoEnable = Some (RSet ms)" "host \<in> ms"
    by (auto simp: AutoEnableSet_def split: option.splits rvalue.splits)
  have two: "Suc (Suc 0) = 2" by simp
  show "fst (run (autoEnabled host path) w) = Some (True, None)"
    using a ms by (simp add: autoEnabled_def exec_simps redis_Bool_def)
  show "redis (snd (run (autoEnabled host path) w)) =
        (if fails w 2 then redis w else (redis w)(keyEnabled host path \<mapsto> RString ''true''))"
    using a ms by (simp add: autoEnabled_def exec_simps redis_Bool_def two)
  show "trace (snd (run (autoEnabled host path) w)) =
        trace w @ [EDo (GET (keyEnabled host path)) (Inr Nil),
                   EDo (SISMEMBER keyAutoEnable host) (Inr (Integer 1)),
                   EDo (SET (keyEnabled host path) ''true'')
                     (if fails w 2 then Inl ErrConn else Inr (Status ''OK''))]"
    using a ms by (simp add: autoEnabled_def exec_simps redis_Bool_def two)
next
  assume a: "redis w (keyEnabled host path) = None \<and> host \<notin> AutoEnableSet (redis w) \<and>
    (redis w keyAutoEnable = None \<or> (\<exists>ms. redis w keyAutoEnable = Some (RSet ms))) \<and>
    \<not> fails w 0 \<and> \<not> fails w 1"
  show "fst (run (autoEnabled host path) w) = Some (False, None)"
    using a by (auto simp add: autoEnabled_def exec_simps redis_Bool_def AutoEnableSet_def)
  show "redis (snd (run (autoEnabled host path) w)) = redis w"
    using a by (auto simp add: autoEnabled_def exec_simps redis_Bool_def AutoEnableSet_def)
  show "trace (snd (run (autoEnabled host path) w)) =
        trace w @ [EDo (GET (keyEnabled host path)) (Inr Nil),
                   EDo (SISMEMBER keyAutoEnable host) (Inr (Integer 0))]"
    using a by (auto simp add: autoEnabled_def exec_simps redis_Bool_def AutoEnableSet_def)
qed

theorem autoEnabled_resolution_witness:
  "fst (run (autoEnabled ''example.com'' ''/post'')
          \<lparr>redis = [keyEnabled ''example.com'' ''/post'' \<mapsto> RString ''false'', keyAutoEnable \<mapsto> RSet {''example.com''}],
           faults = [], now = 0, akismet = [], trace = []\<rparr>) = Some (False, None) \<and>
   fst (run (autoEnabled ''example.com'' ''/post'')
          \<lparr>redis = [keyAutoEnable \<mapsto> RSet {''example.com''}],
           faults = [False, False, True], now = 0, akismet = [], trace = []\<rparr>) = Some (True, None) \<and>
   redis (snd (run (autoEnabled ''example.com'' ''/post'')
          \<lparr>redis = [keyAutoEnable \<mapsto> RSet {''example.com''}],
           faults = [], now = 0, akismet = [], trace = []\<rparr>)) =
     [keyAutoEnable \<mapsto> RSet {''example.com''}, keyEnabled ''example.com'' ''/post'' \<mapsto> RString ''true''] \<and>
   fst (run (autoEnabled ''example.org'' ''/post'')
          \<lparr>redis = [keyAutoEnable \<mapsto> RSet {''example.com''}],
           faults = [], now = 0, akismet = [], trace = []\<rparr>) = Some (False, None) \<and>
   redis (snd (run (autoEnabled ''example.org'' ''/post'')
          \<lparr>redis = [keyAutoEnable \<mapsto> RSet {''example.com''}],
           faults = [], now = 0, akismet = [], trace = []\<rparr>)) = [keyAutoEnable \<mapsto> RSet {''example.com''}]"
  using
    autoEnabled_resolution[of
      "\<lparr>redis = [keyEnabled ''example.com'' ''/post'' \<mapsto> RString ''false'', keyAutoEnable \<mapsto> RSet {''example.com''}],
        faults = [], now = 0, akismet = [], trace = []\<rparr>" "''example.com''" "''/post''" "''false''" False]
    autoEnabled_resolution[of
      "\<lparr>redis = [keyAutoEnable \<mapsto> RSet {''example.com''}],
        faults = [False, False, True], now = 0, akismet = [], trace = []\<rparr>" "''example.com''" "''/post''"]
    autoEnabled_resolution[of
      "\<lparr>redis = [keyAutoEnable \<mapsto> RSet {''example.com''}],
        faults = [], now = 0, akismet = [], trace = []\<rparr>" "''example.com''" "''/post''"]
    autoEnabled_resolution[of
      "\<lparr>redis = [keyAutoEnable \<mapsto> RSet {''example.com''}],
        faults = [], now = 0, akismet = [], trace = []\<rparr>" "''example.org''" "''/post''"]
  by (simp add: EnablementFlag_def AutoEnableSet_def ParseBool_def fails_def key_neq)

text \<open>
  Claim C4: with an empty \<^verbatim>\<open>akismetKey\<close>, \<^verbatim>\<open>autoApproveComment\<close> is the tree that returns
  \<^verbatim>\<open>(false, nil)\<close> at once: it performs no effect, so no call to the store and no post to the
  classifier; run against any world it leaves the world as it was, the approved index and
  the record of effects included.
\<close>

theorem autoApproveComment_no_credential:
  "autoApproveComment [] host path cid = Return (False, None) \<and>
   run (autoApproveComment [] host path cid) w = (Some (False, None), w) \<and>
   ApprovedIndex (redis (snd (run (autoApproveComment [] host path cid) w))) host path =
     ApprovedIndex (redis w) host path \<and>
   trace (snd (run (autoApproveComment [] host path cid) w)) = trace w"
  by (simp add: autoApproveComment_def)

lemma index_ok_57: "index_ok (Some (RZSet [(5, ''5''), (7, ''7'')]))"
  by (simp add: index_ok_def FormatInt_def digits.simps digit_char_def)

lemma ParseInt_7: "ParseInt ''7'' = (7, None)"
  by (simp add: ParseInt_def ParseUint_def is_digit_def digit_val_def maxUint64_def)

lemma record_ok_example:
  "record_ok (Some (RHash [(''comment_author'', a), (''comment_content'', c)]))"
  by (simp add: record_ok_def)

theorem getComments_listing_witness:
  "fst (run (getComments ''example.com'' ''/post'')
          \<lparr>redis = Map.empty, faults = [], now = 0, akismet = [], trace = []\<rparr>) = Some (Slice [], None) \<and>
   fst (run (getComments ''example.com'' ''/post'')
          \<lparr>redis = [keyApproved ''example.com'' ''/post'' \<mapsto> RZSet [(5, ''5''), (7, ''7'')],
                    keyComment ''example.com'' ''/post'' 5 \<mapsto>
                      RHash [(''comment_author'', ''a''), (''comment_content'', ''<b>hi</b>'')],
                    keyComment ''example.com'' ''/post'' 7 \<mapsto>
                      RHash [(''comment_author'', ''x&y''), (''comment_content'', ''ok'')]],
           faults = [], now = 0, akismet = [], trace = []\<rparr>) =
     Some (Slice [\<lparr>comment_ID = ''5'', comment_Author = ''a'', comment_Content = ''&lt;b&gt;hi&lt;/b&gt;''\<rparr>,
                  \<lparr>comment_ID = ''7'', comment_Author = ''x&amp;y'', comment_Content = ''ok''\<rparr>], None)"
proof -
  define s where "s = [keyApproved ''example.com'' ''/post'' \<mapsto> RZSet [(5, ''5''), (7, ''7'')],
                    keyComment ''example.com'' ''/post'' 5 \<mapsto>
                      RHash [(''comment_author'', ''a''), (''comment_content'', ''<b>hi</b>'')],
                    keyComment ''example.com'' ''/post'' 7 \<mapsto>
                      RHash [(''comment_author'', ''x&y''), (''comment_content'', ''ok'')]]"
  have sch: "schema s"
    unfolding s_def
    by (intro schema_upd_comment schema_upd_approved schema_empty index_ok_57 record_ok_example)
  have k57: "keyComment ''example.com'' ''/post'' 5 \<noteq> keyComment ''example.com'' ''/post'' 7"
    by (simp add: keyComment_def FormatInt_def digits.simps digit_char_def)
  have ap: "s (keyApproved ''example.com'' ''/post'') = Some (RZSet [(5, ''5''), (7, ''7'')])"
    unfolding s_def by (simp add: key_neq)
  have c5: "CommentRecord s ''example.com'' ''/post'' 5 =
              Some [(''comment_author'', ''a''), (''comment_content'', ''<b>hi</b>'')]"
    and c7: "CommentRecord s ''example.com'' ''/post'' 7 =
              Some [(''comment_author'', ''x&y''), (''comment_content'', ''ok'')]"
    unfolding s_def CommentRecord_def using k57 by (simp_all add: key_neq)
  from getComments_listing[of "\<lparr>redis = Map.empty, faults = [], now = 0, akismet = [], trace = []\<rparr>"
      "''example.com''" "''/post''"]
  have 1: "fst (run (getComments ''example.com'' ''/post'')
          \<lparr>redis = Map.empty, faults = [], now = 0, akismet = [], trace = []\<rparr>) = Some (Slice [], None)"
    by (auto simp add: fails_def schema_empty ApprovedIndex_def zmembers_def)
  from getComments_listing[of "\<lparr>redis = s, faults = [], now = 0, akismet = [], trace = []\<rparr>"
      "''example.com''" "''/post''"]
  obtain cs where r: "fst (run (getComments ''example.com'' ''/post'')
        \<lparr>redis = s, faults = [], now = 0, akismet = [], trace = []\<rparr>) = Some (Slice cs, None)"
    and ids: "map comment_ID cs = [''5'', ''7'']"
    and fl: "\<forall>c \<in> set cs.
              comment_Author c = EscapeString (field (CommentRecord s ''example.com'' ''/post''
                                   (fst (ParseInt (comment_ID c)))) ''comment_author'') \<and>
              comment_Content c = EscapeString (field (CommentRecord s ''example.com'' ''/post''
                                   (fst (ParseInt (comment_ID c)))) ''comment_content'')"
    using sch ap by (auto simp add: fails_def index_list_def)
  from ids obtain a b where cs: "cs = [a, b]" and a: "comment_ID a = ''5''" and b: "comment_ID b = ''7''"
    by (auto simp: map_eq_Cons_conv)
  have "a = \<lparr>comment_ID = ''5'', comment_Author = ''a'', comment_Content = ''&lt;b&gt;hi&lt;/b&gt;''\<rparr>"
    using fl a unfolding cs
    by (cases a) (simp add: ParseInt_5 c5 field_def EscapeString_def escape_byte_def)
  moreover have "b = \<lparr>comment_ID = ''7'', comment_Author = ''x&amp;y'', comment_Content = ''ok''\<rparr>"
    using fl b unfolding cs
    by (cases b) (simp add: ParseInt_7 c7 field_def EscapeString_def escape_byte_def)
  ultimately show ?thesis
    using 1 r unfolding cs s_def by simp
qed

subsection \<open>Running a handler: composition and what the commands keep\<close>

lemma run_bind:
  "run (bind p f) w = (case run p w of (Some x, w') \<Rightarrow> run (f x) w' | (None, w') \<Rightarrow> (None, w'))"
  by (induction p arbitrary: w) auto


lemma world_proj [simp]:
  "redis (snd (time_Now w)) = redis w" "faults (snd (time_Now w)) = faults w"
  "now (snd (time_Now w)) = now w" "akismet (snd (time_Now w)) = akismet w"
  "trace (snd (time_Now w)) = trace w @ [ENow (word_of_int (now w))]"
  "fst (time_Now w) = word_of_int (now w)"
  "redis (time_Sleep w) = redis w" "faults (time_Sleep w) = faults w"
  "now (time_Sleep w) = now w + 1" "akismet (time_Sleep w) = akismet w"
  "trace (time_Sleep w) = trace w @ [ESleep]"
  "redis (snd (http_PostForm u d w)) = redis w" "faults (snd (http_PostForm u d w)) = faults w"
  "now (snd (http_PostForm u d w)) = now w" "akismet (snd (http_PostForm u d w)) = tl (akismet w)"
  "trace (snd (http_PostForm u d w)) = trace w @ [EPost u d (http_reply w)]"
  "fst (http_PostForm u d w) = http_reply w"
  "redis (log_Print l w) = redis w" "faults (log_Print l w) = faults w"
  "now (log_Print l w) = now w" "akismet (log_Print l w) = akismet w"
  "trace (log_Print l w) = trace w @ [ELog l]"
  by (simp_all add: time_Now_def time_Sleep_def http_PostForm_def log_Print_def)

lemma fails_proj [simp]:
  "fails (snd (time_Now w)) n = fails w n"
  "fails (time_Sleep w) n = fails w n"
  "fails (snd (http_PostForm u d w)) n = fails w n"
  "fails (log_Print l w) n = fails w n"
  by (simp_all add: fails_def)

lemma redis_conn_Do_cases:
  "redis (snd (conn_Do c w)) = redis w \<or> redis (snd (conn_Do c w)) = snd (redis_exec c (redis w))"
  by (simp add: conn_Do_proj)

lemma grows_refl [simp]: "grows s s"
  by (simp add: grows_def)

lemma grows_trans: "grows s s' \<Longrightarrow> grows s' s'' \<Longrightarrow> grows s s''"
  unfolding grows_def by (meson subset_trans)

lemma zmembers_simps [simp]:
  "zmembers None = {}"
  "zmembers (Some (RZSet zs)) = snd ` set zs"
  "zmembers (Some (RString v)) = {}"
  "zmembers (Some (RSet ms)) = {}"
  "zmembers (Some (RHash h)) = {}"
  by (simp_all add: zmembers_def)

lemma zmembers_exec_ZADD:
  "zmembers (snd (redis_exec (ZADD k sc m) s) k') =
     (if k' = k \<and> (s k = None \<or> (\<exists>zs. s k = Some (RZSet zs))) then insert m (zmembers (s k)) else zmembers (s k'))"
  by (auto simp: snd_set_zadd split: option.splits rvalue.splits)

lemma exec_other_key:
  "k' \<noteq> k \<Longrightarrow> snd (redis_exec (ZADD k sc m) s) k' = s k'"
  "k' \<noteq> k \<Longrightarrow> snd (redis_exec (SET k v) s) k' = s k'"
  "k' \<noteq> k \<Longrightarrow> snd (redis_exec (HMSET k fvs) s) k' = s k'"
  "snd (redis_exec (GET k) s) = s"
  "snd (redis_exec (SISMEMBER k m) s) = s"
  "snd (redis_exec (HGETALL k) s) = s"
  "snd (redis_exec (ZRANGEBYSCORE k lo hi off cnt) s) = s"
  by (auto split: option.splits rvalue.splits)

lemma program_command_indexes:
  assumes "program_command c"
  shows "AllIndex s h p \<subseteq> AllIndex (snd (redis_exec c s)) h p"
    and "ApprovedIndex s h p \<subseteq> ApprovedIndex (snd (redis_exec c s)) h p"
  using assms unfolding program_command_def AllIndex_def ApprovedIndex_def
  by (auto simp: zmembers_exec_ZADD exec_other_key key_neq simp del: redis_exec.simps)

lemma plain_command_approved:
  assumes "plain_command c"
  shows "ApprovedIndex (snd (redis_exec c s)) h p = ApprovedIndex s h p"
  using assms unfolding plain_command_def program_command_def ApprovedIndex_def
  by (auto simp: exec_other_key key_neq simp del: redis_exec.simps)

lemma program_command_grows: "program_command c \<Longrightarrow> grows s (snd (redis_exec c s))"
  by (simp add: grows_def program_command_indexes)

lemma plain_command_invariant:
  "plain_command c \<Longrightarrow> approved_in_all s \<Longrightarrow> approved_in_all (snd (redis_exec c s))"
  unfolding approved_in_all_def
  using program_command_indexes(1)[of c s] plain_command_approved[of c s]
  by (metis plain_command_def subset_trans)

lemma index_ok_exec_ZADD:
  "index_ok (s k) \<Longrightarrow> index_ok (snd (redis_exec (ZADD k (sint (cid::int64)) (FormatInt (sint cid))) s) k)"
  by (auto simp: index_ok_zadd index_ok_single split: option.splits rvalue.splits)

lemma record_ok_exec_HMSET:
  "record_ok (s k) \<Longrightarrow> record_ok (snd (redis_exec (HMSET k fvs) s) k)"
  by (auto simp: record_ok_def distinct_hmset split: option.splits rvalue.splits)

lemma program_command_schema:
  assumes "program_command c" and "schema s"
  shows "schema (snd (redis_exec c s))"
proof -
  from assms(1) obtain host path cid fvs where
    "c = GET (keyEnabled host path) \<or>
     c = SISMEMBER keyAutoEnable host \<or>
     c = SET (keyEnabled host path) ''true'' \<or>
     c = ZADD (keyAll host path) (sint (cid::int64)) (FormatInt (sint cid)) \<or>
     c = ZADD (keyApproved host path) (sint cid) (FormatInt (sint cid)) \<or>
     c = ZRANGEBYSCORE (keyApproved host path) MinusInf PlusInf 0 10 \<or>
     c = HMSET (keyComment host path cid) fvs \<or>
     c = HGETALL (keyComment host path cid)"
    unfolding program_command_def by blast
  then consider
      (ro) "snd (redis_exec c s) = s"
    | (set) "c = SET (keyEnabled host path) ''true''"
    | (all) "c = ZADD (keyAll host path) (sint cid) (FormatInt (sint cid))"
    | (appr) "c = ZADD (keyApproved host path) (sint cid) (FormatInt (sint cid))"
    | (hm) "c = HMSET (keyComment host path cid) fvs"
    by (auto simp: exec_other_key simp del: redis_exec.simps)
  then show ?thesis
  proof cases
    case ro
    then show ?thesis using assms(2) by simp
  next
    case set
    then show ?thesis using assms(2) by (simp add: schema_upd_enabled)
  next
    case all
    have "index_ok (snd (redis_exec c s) (keyAll host path))"
      unfolding all using assms(2) by (intro index_ok_exec_ZADD) (simp add: schema_def)
    then show ?thesis
      using assms(2) unfolding schema_def all
      by (auto simp: exec_other_key key_neq simp del: redis_exec.simps)
        (metis exec_other_key(1))+
  next
    case appr
    have "index_ok (snd (redis_exec c s) (keyApproved host path))"
      unfolding appr using assms(2) by (intro index_ok_exec_ZADD) (simp add: schema_def)
    then show ?thesis
      using assms(2) unfolding schema_def appr
      by (auto simp: exec_other_key key_neq simp del: redis_exec.simps)
        (metis exec_other_key(1))+
  next
    case hm
    have "record_ok (snd (redis_exec c s) (keyComment host path cid))"
      unfolding hm using assms(2) by (intro record_ok_exec_HMSET) (simp add: schema_def)
    then show ?thesis
      using assms(2) unfolding schema_def hm
      by (auto simp: exec_other_key key_neq simp del: redis_exec.simps)
        (metis exec_other_key(3))+
  qed
qed

lemma all_cmds_bind: "all_cmds P p \<Longrightarrow> (\<And>x. all_cmds P (f x)) \<Longrightarrow> all_cmds P (bind p f)"
  by (induction p) auto

lemma all_cmds_mono: "all_cmds P p \<Longrightarrow> (\<And>c. P c \<Longrightarrow> Q c) \<Longrightarrow> all_cmds Q p"
  by (induction p) auto

lemma plain_commandI:
  "plain_command (GET (keyEnabled host path))"
  "plain_command (SISMEMBER keyAutoEnable host)"
  "plain_command (SET (keyEnabled host path) ''true'')"
  "plain_command (ZADD (keyAll host path) (sint (cid::int64)) (FormatInt (sint cid)))"
  "plain_command (ZRANGEBYSCORE (keyApproved host path) MinusInf PlusInf 0 10)"
  "plain_command (HMSET (keyComment host path cid) fvs)"
  "plain_command (HGETALL (keyComment host path cid))"
  unfolding plain_command_def program_command_def by (blast | simp add: key_neq)+

lemma program_commandI:
  "plain_command c \<Longrightarrow> program_command c"
  "program_command (ZADD (keyApproved host path) (sint (cid::int64)) (FormatInt (sint cid)))"
  unfolding plain_command_def program_command_def by blast+

lemma getComments_loop_cmds: "all_cmds plain_command (getComments_loop host path ids acc)"
  by (induction ids arbitrary: acc) (auto simp: plain_commandI Let_def split: sum.splits)

lemma getComments_cmds: "all_cmds plain_command (getComments host path)"
  by (auto simp: getComments_def plain_commandI getComments_loop_cmds split: sum.splits)

lemma autoEnabled_cmds: "all_cmds plain_command (autoEnabled host path)"
  by (auto simp: autoEnabled_def plain_commandI split: sum.splits)

lemma saveComment_store_cmds: "all_cmds plain_command (saveComment_store req cid)"
  by (auto simp: saveComment_store_def plain_commandI split: sum.splits)

lemma saveComment_cmds: "all_cmds plain_command (saveComment fuel req)"
  by (induction fuel) (auto simp: plain_commandI saveComment_store_cmds split: sum.splits)

lemma autoApproveComment_cmds: "all_cmds program_command (autoApproveComment key host path cid)"
  by (auto simp: autoApproveComment_def plain_commandI program_commandI split: sum.splits)

lemma handleGET_cmds: "all_cmds program_command (handleGET d r)"
  unfolding handleGET_def Let_def
  by (auto intro!: all_cmds_bind all_cmds_mono[OF getComments_cmds] program_commandI
      split: sum.splits option.splits)

lemma handlePOST_cmds: "all_cmds program_command (handlePOST d fuel r)"
  unfolding handlePOST_def
  by (auto intro!: all_cmds_bind all_cmds_mono[OF autoEnabled_cmds] all_cmds_mono[OF saveComment_cmds]
      autoApproveComment_cmds program_commandI split: sum.splits option.splits)

lemma commentHandler_cmds: "all_cmds program_command (commentHandler d fuel r)"
  unfolding commentHandler_def
  by (auto intro!: all_cmds_bind handleGET_cmds handlePOST_cmds)

lemma run_invariant:
  assumes "all_cmds P p" and "\<And>c s. P c \<Longrightarrow> I s \<Longrightarrow> I (snd (redis_exec c s))" and "I (redis w)"
  shows "I (redis (snd (run p w)))"
  using assms(1,3)
proof (induction p arbitrary: w)
  case (Do c k)
  have "I (redis (snd (conn_Do c w)))"
    using Do.prems assms(2)[of c "redis w"] by (simp add: conn_Do_proj)
  then show ?case using Do by simp
qed auto

lemma run_schema:
  "all_cmds program_command p \<Longrightarrow> schema (redis w) \<Longrightarrow> schema (redis (snd (run p w)))"
  by (rule run_invariant[where I = schema and P = program_command]) (auto simp: program_command_schema)

lemma run_grows:
  assumes "all_cmds program_command p"
  shows "grows (redis w) (redis (snd (run p w)))"
  by (rule run_invariant[where I = "grows (redis w)", OF assms])
    (auto intro: grows_trans program_command_grows)

lemma run_approved_unchanged:
  assumes "all_cmds plain_command p"
  shows "ApprovedIndex (redis (snd (run p w))) h q = ApprovedIndex (redis w) h q"
  by (rule run_invariant[where I = "\<lambda>s. ApprovedIndex s h q = ApprovedIndex (redis w) h q", OF assms])
    (auto simp: plain_command_approved)

subsection \<open>\<^verbatim>\<open>saveComment\<close> run alone\<close>

lemma run_saveComment_store:
  "run (saveComment_store req cid) w =
     (Some (cid, case conn_reply (HMSET (keyComment (req_host req) (req_path req) cid) (AddFlat req)) w of
                   Inl e \<Rightarrow> Some e | Inr r \<Rightarrow> None),
      snd (conn_Do (HMSET (keyComment (req_host req) (req_path req) cid) (AddFlat req)) w))"
  by (simp add: saveComment_store_def conn_Do_proj conn_reply_alt redis_String_def AddFlat_def wrongtype_def
      split: option.splits rvalue.splits)

lemma conn_reply_ZADD:
  "conn_reply (ZADD k sc m) w =
     (if fails w 0 then Inl ErrConn
      else case redis w k of
        None \<Rightarrow> Inr (Integer 1)
      | Some (RZSet zs) \<Rightarrow> Inr (Integer (if m \<in> snd ` set zs then 0 else 1))
      | Some _ \<Rightarrow> Inl (RedisError ''WRONGTYPE Operation against a key holding the wrong kind of value''))"
  by (simp add: conn_reply_alt wrongtype_def split: option.splits rvalue.splits)

lemma redis_Bool_ZADD:
  "redis_Bool (conn_reply (ZADD k sc m) w) =
     (case conn_reply (ZADD k sc m) w of Inl e \<Rightarrow> Inl e | Inr r \<Rightarrow> Inr (r = Integer 1))"
  by (simp add: conn_reply_ZADD redis_Bool_def split: option.splits rvalue.splits)

lemma ZADD_added:
  assumes "conn_reply (ZADD k sc m) w = Inr (Integer 1)"
  shows "m \<notin> zmembers (redis w k)"
    and "zmembers (redis (snd (conn_Do (ZADD k sc m) w)) k) = insert m (zmembers (redis w k))"
    and "\<not> fails w 0"
  using assms
  by (auto simp: conn_reply_ZADD conn_Do_proj snd_set_zadd split: if_splits option.splits rvalue.splits)

lemma ZADD_collision:
  assumes "conn_reply (ZADD k sc m) w = Inr r" and "r \<noteq> Integer 1"
  shows "r = Integer 0" and "m \<in> zmembers (redis w k)"
    and "zmembers (redis (snd (conn_Do (ZADD k sc m) w)) k) = zmembers (redis w k)"
  using assms
  by (auto simp: conn_reply_ZADD conn_Do_proj snd_set_zadd split: if_splits option.splits rvalue.splits)

lemma run_saveComment_Suc:
  "run (saveComment (Suc fuel) req) w =
     (case conn_reply (ZADD (keyAll (req_host req) (req_path req)) (sint (word_of_int (now w) :: int64))
                         (FormatInt (sint (word_of_int (now w) :: int64)))) (snd (time_Now w)) of
        Inl e \<Rightarrow>
          (Some (word_of_int (now w), Some e),
           log_Print (LogError e)
             (snd (conn_Do (ZADD (keyAll (req_host req) (req_path req)) (sint (word_of_int (now w) :: int64))
                         (FormatInt (sint (word_of_int (now w) :: int64)))) (snd (time_Now w)))))
      | Inr r \<Rightarrow>
          if r = Integer 1 then
            run (saveComment_store req (word_of_int (now w)))
              (snd (conn_Do (ZADD (keyAll (req_host req) (req_path req)) (sint (word_of_int (now w) :: int64))
                         (FormatInt (sint (word_of_int (now w) :: int64)))) (snd (time_Now w))))
          else
            run (saveComment fuel req)
              (time_Sleep (snd (conn_Do (ZADD (keyAll (req_host req) (req_path req)) (sint (word_of_int (now w) :: int64))
                         (FormatInt (sint (word_of_int (now w) :: int64)))) (snd (time_Now w))))))"
  by (simp add: conn_Do_proj redis_Bool_ZADD split: sum.splits)

lemma HMSET_ok:
  assumes "conn_reply (HMSET k fvs) w = Inr r"
  shows "r = Status ''OK''"
    and "\<exists>h0. redis w k \<in> {None, Some (RHash h0)} \<and>
              redis (snd (conn_Do (HMSET k fvs) w)) = (redis w)(k \<mapsto> RHash (hmset fvs (case redis w k of Some (RHash h) \<Rightarrow> h | _ \<Rightarrow> [])))"
  using assms
  by (auto simp: conn_reply_alt conn_Do_proj wrongtype_def split: if_splits option.splits rvalue.splits)

lemma HMSET_failed:
  assumes "conn_reply (HMSET k fvs) w = Inl e"
  shows "redis (snd (conn_Do (HMSET k fvs) w)) = redis w"
  using assms
  by (auto simp: conn_reply_alt conn_Do_proj wrongtype_def split: if_splits option.splits rvalue.splits)

lemma saveComment_returns:
  assumes "run (saveComment fuel req) w = (Some (cid, None), w')"
  shows "\<exists>n. now w' = now w + int n \<and> cid = word_of_int (now w') \<and>
           trace w' = trace w @ collisions req (now w) n @
             [ENow cid,
              EDo (ZADD (keyAll (req_host req) (req_path req)) (sint cid) (FormatInt (sint cid))) (Inr (Integer 1)),
              EDo (HMSET (keyComment (req_host req) (req_path req) cid) (AddFlat req)) (Inr (Status ''OK''))] \<and>
           FormatInt (sint cid) \<notin> AllIndex (redis w) (req_host req) (req_path req) \<and>
           AllIndex (redis w') (req_host req) (req_path req) =
             insert (FormatInt (sint cid)) (AllIndex (redis w) (req_host req) (req_path req)) \<and>
           CommentRecord (redis w') (req_host req) (req_path req) cid =
             Some (hmset (AddFlat req)
                    (case CommentRecord (redis w) (req_host req) (req_path req) cid of None \<Rightarrow> [] | Some h \<Rightarrow> h))"
  using assms
proof (induction fuel arbitrary: w)
  case 0
  then show ?case by simp
next
  case (Suc fuel)
  let ?t = "word_of_int (now w) :: int64"
  let ?k = "keyAll (req_host req) (req_path req)"
  let ?c = "ZADD ?k (sint ?t) (FormatInt (sint ?t))"
  let ?w1 = "snd (time_Now w)"
  let ?w2 = "snd (conn_Do ?c ?w1)"
  let ?kc = "keyComment (req_host req) (req_path req) ?t"
  let ?hm = "HMSET ?kc (AddFlat req)"
  note eq = Suc.prems[unfolded run_saveComment_Suc]
  show ?case
  proof (cases "conn_reply ?c ?w1")
    case (Inl e)
    then show ?thesis using eq by simp
  next
    case (Inr r)
    show ?thesis
    proof (cases "r = Integer 1")
      case True
      then have rep: "conn_reply ?c ?w1 = Inr (Integer 1)" using Inr by simp
      have st: "run (saveComment_store req ?t) ?w2 = (Some (cid, None), w')"
        using eq Inr True by simp
      then have cid: "cid = ?t" and w': "w' = snd (conn_Do ?hm ?w2)"
        and "\<exists>r. conn_reply ?hm ?w2 = Inr r"
        by (auto simp: run_saveComment_store split: sum.splits)
      then obtain r' where r': "conn_reply ?hm ?w2 = Inr r'" by blast
      note hm = HMSET_ok[OF r']
      note za = ZADD_added[OF rep]
      have neq: "?k \<noteq> ?kc" by (simp add: key_neq)
      have rec: "redis ?w2 ?kc = redis w ?kc"
        using za(3) neq by (simp add: conn_Do_proj exec_other_key del: redis_exec.simps)
      have "now w' = now w + int 0" by (simp add: w' conn_Do_proj)
      moreover have "cid = word_of_int (now w')" by (simp add: cid w' conn_Do_proj)
      moreover have "trace w' = trace w @ collisions req (now w) 0 @
             [ENow cid, EDo (ZADD ?k (sint cid) (FormatInt (sint cid))) (Inr (Integer 1)),
              EDo (HMSET (keyComment (req_host req) (req_path req) cid) (AddFlat req)) (Inr (Status ''OK''))]"
        using rep r' hm(1) by (simp add: w' cid conn_Do_proj)
      moreover have "FormatInt (sint cid) \<notin> AllIndex (redis w) (req_host req) (req_path req)"
        using za(1) by (simp add: AllIndex_def cid)
      moreover have "AllIndex (redis w') (req_host req) (req_path req) =
             insert (FormatInt (sint cid)) (AllIndex (redis w) (req_host req) (req_path req))"
        using za(2) hm(2) neq by (auto simp: AllIndex_def cid w')
      moreover have "CommentRecord (redis w') (req_host req) (req_path req) cid =
             Some (hmset (AddFlat req)
                    (case CommentRecord (redis w) (req_host req) (req_path req) cid of None \<Rightarrow> [] | Some h \<Rightarrow> h))"
        using hm(2) rec by (auto simp: CommentRecord_def cid w' split: option.splits rvalue.splits)
      ultimately show ?thesis by blast
    next
      case False
      let ?w3 = "time_Sleep ?w2"
      have run3: "run (saveComment fuel req) ?w3 = (Some (cid, None), w')"
        using eq Inr False by simp
      note col = ZADD_collision[OF Inr False]
      from Suc.IH[OF run3] obtain n where n:
        "now w' = now ?w3 + int n" "cid = word_of_int (now w')"
        "trace w' = trace ?w3 @ collisions req (now ?w3) n @
             [ENow cid, EDo (ZADD ?k (sint cid) (FormatInt (sint cid))) (Inr (Integer 1)),
              EDo (HMSET (keyComment (req_host req) (req_path req) cid) (AddFlat req)) (Inr (Status ''OK''))]"
        "FormatInt (sint cid) \<notin> AllIndex (redis ?w3) (req_host req) (req_path req)"
        "AllIndex (redis w') (req_host req) (req_path req) =
             insert (FormatInt (sint cid)) (AllIndex (redis ?w3) (req_host req) (req_path req))"
        "CommentRecord (redis w') (req_host req) (req_path req) cid =
             Some (hmset (AddFlat req)
                    (case CommentRecord (redis ?w3) (req_host req) (req_path req) cid of None \<Rightarrow> [] | Some h \<Rightarrow> h))"
        by blast
      have all3: "AllIndex (redis ?w3) (req_host req) (req_path req) = AllIndex (redis w) (req_host req) (req_path req)"
        using col(3) by (simp add: AllIndex_def)
      have neq: "keyComment (req_host req) (req_path req) cid \<noteq> ?k" by (simp add: key_neq)
      have rec3: "CommentRecord (redis ?w3) (req_host req) (req_path req) cid =
          CommentRecord (redis w) (req_host req) (req_path req) cid"
        using neq by (simp add: CommentRecord_def conn_Do_proj exec_other_key del: redis_exec.simps)
      have "now w' = now w + int (Suc n)" using n(1) by (simp add: conn_Do_proj)
      moreover have "trace w' = trace w @ collisions req (now w) (Suc n) @
             [ENow cid, EDo (ZADD ?k (sint cid) (FormatInt (sint cid))) (Inr (Integer 1)),
              EDo (HMSET (keyComment (req_host req) (req_path req) cid) (AddFlat req)) (Inr (Status ''OK''))]"
        using n(3) Inr col(1) by (simp add: conn_Do_proj)
      ultimately show ?thesis
        using n(2,4,5,6) unfolding all3 rec3 by blast
    qed
  qed
qed

lemma ZADD_failed:
  assumes "conn_reply (ZADD k sc m) w = Inl e"
  shows "redis (snd (conn_Do (ZADD k sc m) w)) = redis w"
  using assms
  by (auto simp: conn_reply_ZADD conn_Do_proj split: if_splits option.splits rvalue.splits)

lemma redis_after_HGETALL: "redis (snd (conn_Do (HGETALL k) w)) = redis w"
  by (simp add: conn_Do_proj exec_other_key del: redis_exec.simps)

lemma saveComment_fails:
  assumes "run (saveComment fuel req) w = (Some (cid, Some e), w')"
  shows "(last (trace w') = ELog (LogError e) \<and>
            AllIndex (redis w') (req_host req) (req_path req) = AllIndex (redis w) (req_host req) (req_path req)) \<or>
         (last (trace w') = EDo (HMSET (keyComment (req_host req) (req_path req) cid) (AddFlat req)) (Inl e) \<and>
            FormatInt (sint cid) \<notin> AllIndex (redis w) (req_host req) (req_path req) \<and>
            AllIndex (redis w') (req_host req) (req_path req) =
              insert (FormatInt (sint cid)) (AllIndex (redis w) (req_host req) (req_path req)) \<and>
            redis w' (keyComment (req_host req) (req_path req) cid) =
              redis w (keyComment (req_host req) (req_path req) cid))"
  using assms
proof (induction fuel arbitrary: w)
  case 0
  then show ?case by simp
next
  case (Suc fuel)
  let ?t = "word_of_int (now w) :: int64"
  let ?k = "keyAll (req_host req) (req_path req)"
  let ?c = "ZADD ?k (sint ?t) (FormatInt (sint ?t))"
  let ?w1 = "snd (time_Now w)"
  let ?w2 = "snd (conn_Do ?c ?w1)"
  let ?kc = "keyComment (req_host req) (req_path req) ?t"
  let ?hm = "HMSET ?kc (AddFlat req)"
  note eq = Suc.prems[unfolded run_saveComment_Suc]
  show ?case
  proof (cases "conn_reply ?c ?w1")
    case (Inl e')
    then have "w' = log_Print (LogError e) ?w2" using eq by auto
    moreover have "redis ?w2 = redis w" using ZADD_failed[OF Inl] by simp
    ultimately show ?thesis by simp
  next
    case (Inr r)
    show ?thesis
    proof (cases "r = Integer 1")
      case True
      then have rep: "conn_reply ?c ?w1 = Inr (Integer 1)" using Inr by simp
      have st: "run (saveComment_store req ?t) ?w2 = (Some (cid, Some e), w')"
        using eq Inr True by simp
      then have cid: "cid = ?t" and w': "w' = snd (conn_Do ?hm ?w2)"
        and r': "conn_reply ?hm ?w2 = Inl e"
        by (auto simp: run_saveComment_store split: sum.splits)
      note hm = HMSET_failed[OF r']
      note za = ZADD_added[OF rep]
      have neq: "?k \<noteq> ?kc" by (simp add: key_neq)
      have rec: "redis ?w2 ?kc = redis w ?kc"
        using za(3) neq by (simp add: conn_Do_proj exec_other_key del: redis_exec.simps)
      have "last (trace w') = EDo (HMSET (keyComment (req_host req) (req_path req) cid) (AddFlat req)) (Inl e)"
        using r' by (simp add: w' cid conn_Do_proj)
      moreover have "FormatInt (sint cid) \<notin> AllIndex (redis w) (req_host req) (req_path req)"
        using za(1) by (simp add: AllIndex_def cid)
      moreover have "AllIndex (redis w') (req_host req) (req_path req) =
             insert (FormatInt (sint cid)) (AllIndex (redis w) (req_host req) (req_path req))"
        using za(2) hm by (simp add: AllIndex_def cid w')
      moreover have "redis w' (keyComment (req_host req) (req_path req) cid) =
              redis w (keyComment (req_host req) (req_path req) cid)"
        using hm rec by (simp add: cid w')
      ultimately show ?thesis by blast
    next
      case False
      let ?w3 = "time_Sleep ?w2"
      have run3: "run (saveComment fuel req) ?w3 = (Some (cid, Some e), w')"
        using eq Inr False by simp
      note col = ZADD_collision[OF Inr False]
      have all3: "AllIndex (redis ?w3) (req_host req) (req_path req) = AllIndex (redis w) (req_host req) (req_path req)"
        using col(3) by (simp add: AllIndex_def)
      have neq: "keyComment (req_host req) (req_path req) cid \<noteq> ?k" by (simp add: key_neq)
      have rec3: "redis ?w3 (keyComment (req_host req) (req_path req) cid) =
          redis w (keyComment (req_host req) (req_path req) cid)"
        using neq by (simp add: conn_Do_proj exec_other_key del: redis_exec.simps)
      show ?thesis using Suc.IH[OF run3] unfolding all3 rec3 .
    qed
  qed
qed

lemma autoApproveComment_error:
  assumes "run (autoApproveComment key host path cid) w = (Some (a, Some e), w')"
  shows "a = False \<and> redis w' = redis w"
proof (cases "key = []")
  case True
  then show ?thesis using assms by (simp add: autoApproveComment_def)
next
  case False
  let ?w1 = "snd (conn_Do (HGETALL (keyComment host path cid)) w)"
  let ?w2 = "snd (http_PostForm (akismetCheckURL key) (form_data vals) ?w1)"
  let ?z = "ZADD (keyApproved host path) (sint cid) (FormatInt (sint cid))"
  have r1: "redis ?w1 = redis w" by (rule redis_after_HGETALL)
  have z: "\<And>w2 e'. redis w2 = redis w \<Longrightarrow> conn_reply ?z w2 = Inl e' \<Longrightarrow> redis (snd (conn_Do ?z w2)) = redis w"
    using ZADD_failed by metis
  show ?thesis
    using assms False r1
    by (auto simp: autoApproveComment_def conn_Do_proj(1) redis_Bool_ZADD z
        split: sum.splits if_splits)
qed

lemma run_commentHandler_POST:
  assumes "Method r = ''POST''" and "cleanCommentSubmitRequest d r = Inr req"
    and "run (autoEnabled (req_host req) (req_path req)) w0 = (Some (True, None), w1)"
    and "run (saveComment fuel req) w1 = (Some (cid, err), w2)"
  shows "err = Some e \<Longrightarrow>
           run (commentHandler d fuel r) w0 =
             (Some (form_error r @ [HttpError ''backend error'' 500]), log_Print (LogError e) w2)"
    and "err = None \<Longrightarrow>
         run (autoApproveComment (akismetKey d) (req_host req) (req_path req) cid) w2 = (Some (approved, aerr), w3) \<Longrightarrow>
           run (commentHandler d fuel r) w0 =
             (Some (form_error r @ [Redirect (Permalink req) 302]),
              log_Print (LogNew approved (req_host req) (req_path req) cid)
                (case aerr of None \<Rightarrow> w3 | Some e \<Rightarrow> log_Print (LogError e) w3))"
  using assms
  by (auto simp: commentHandler_def handlePOST_def run_bind split: option.splits)

subsection \<open>The empty host\<close>

text \<open>
  Claim C9 holds on the POST path and fails on the GET path. When the \<^verbatim>\<open>url\<close> value parses
  to a URL with an empty host, the POST branch is the tree that returns the error
  \<^verbatim>\<open>bad url value\<close> with status 400 at once, without any effect; the GET branch has no such
  check: its first effect is the range query on the approved key made of the empty host and
  the path.
\<close>

theorem empty_host:
  assumes "url_Parse d (FormValue r ''url'') = Inr u" and "Host u = []"
  shows "(Method r = ''POST'' \<longrightarrow>
            commentHandler d fuel r = Return (form_error r @ [HttpErrorOf (ErrMsg ''bad url value'') 400])) \<and>
         (Method r = ''GET'' \<longrightarrow>
            (\<exists>k. commentHandler d fuel r =
                   Do (ZRANGEBYSCORE (keyApproved [] (Path u)) MinusInf PlusInf 0 10) k))"
  using assms
  by (simp add: commentHandler_def handlePOST_def handleGET_def cleanCommentSubmitRequest_def
      getComments_def)

theorem empty_host_witness:
  "(\<exists>k. commentHandler \<lparr>url_Parse = (\<lambda>s. Inr \<lparr>Host = [], Path = s\<rparr>), ResolveTCPAddr = (\<lambda>s. Inr s), akismetKey = []\<rparr> 1
          \<lparr>Method = ''GET'', ParseForm = None, Form = [(''url'', ''/foo'')], Header = [], RemoteAddr = []\<rparr> =
        Do (ZRANGEBYSCORE (keyApproved [] ''/foo'') MinusInf PlusInf 0 10) k) \<and>
   run (commentHandler \<lparr>url_Parse = (\<lambda>s. Inr \<lparr>Host = [], Path = s\<rparr>), ResolveTCPAddr = (\<lambda>s. Inr s), akismetKey = []\<rparr> 1
          \<lparr>Method = ''GET'', ParseForm = None, Form = [(''url'', ''/foo'')], Header = [], RemoteAddr = []\<rparr>)
       \<lparr>redis = Map.empty, faults = [], now = 0, akismet = [], trace = []\<rparr> =
     (Some [SetHeader ''Content-Type'' ''application/json'', JsonEncode (Slice [])],
      \<lparr>redis = Map.empty, faults = [], now = 0, akismet = [],
       trace = [EDo (ZRANGEBYSCORE ''{luit.eu/comments:///foo}:approved'' MinusInf PlusInf 0 10) (Inr (Array []))]\<rparr>) \<and>
   commentHandler \<lparr>url_Parse = (\<lambda>s. Inr \<lparr>Host = [], Path = s\<rparr>), ResolveTCPAddr = (\<lambda>s. Inr s), akismetKey = []\<rparr> 1
          \<lparr>Method = ''POST'', ParseForm = None, Form = [(''url'', ''/foo'')], Header = [], RemoteAddr = []\<rparr> =
     Return [HttpErrorOf (ErrMsg ''bad url value'') 400]"
  using
    empty_host[of "\<lparr>url_Parse = (\<lambda>s. Inr \<lparr>Host = [], Path = s\<rparr>), ResolveTCPAddr = (\<lambda>s. Inr s), akismetKey = []\<rparr>"
      "\<lparr>Method = ''GET'', ParseForm = None, Form = [(''url'', ''/foo'')], Header = [], RemoteAddr = []\<rparr>"
      "\<lparr>Host = [], Path = ''/foo''\<rparr>" 1]
    empty_host[of "\<lparr>url_Parse = (\<lambda>s. Inr \<lparr>Host = [], Path = s\<rparr>), ResolveTCPAddr = (\<lambda>s. Inr s), akismetKey = []\<rparr>"
      "\<lparr>Method = ''POST'', ParseForm = None, Form = [(''url'', ''/foo'')], Header = [], RemoteAddr = []\<rparr>"
      "\<lparr>Host = [], Path = ''/foo''\<rparr>" 1]
  apply (simp add: FormValue_def form_error_def)
  apply (simp add: commentHandler_def handleGET_def getComments_def FormValue_def form_error_def
      conn_Do_def conn_reply_def redis_Strings_def keyApproved_def)
  done

subsection \<open>Submissions: storing, classifying, listing\<close>

lemma ZADD_other_keys: "k' \<noteq> k \<Longrightarrow> redis (snd (conn_Do (ZADD k sc m) w)) k' = redis w k'"
  by (simp add: conn_Do_proj exec_other_key del: redis_exec.simps)

lemma autoApproveComment_approved:
  assumes "run (autoApproveComment key host path cid) w = (Some (True, None), w')"
  shows "FormatInt (sint cid) \<notin> ApprovedIndex (redis w) host path"
    and "ApprovedIndex (redis w') host path = insert (FormatInt (sint cid)) (ApprovedIndex (redis w) host path)"
    and "\<forall>k. k \<noteq> keyApproved host path \<longrightarrow> redis w' k = redis w k"
proof -
  let ?z = "ZADD (keyApproved host path) (sint cid) (FormatInt (sint cid))"
  have key: "key \<noteq> []" using assms by (auto simp: autoApproveComment_def)
  let ?w1 = "snd (conn_Do (HGETALL (keyComment host path cid)) w)"
  have r1: "redis ?w1 = redis w" by (rule redis_after_HGETALL)
  obtain vals where vals: "redis_StringMap (conn_reply (HGETALL (keyComment host path cid)) w) = Inr vals"
    using assms key
    by (cases "redis_StringMap (conn_reply (HGETALL (keyComment host path cid)) w)")
      (auto simp: autoApproveComment_def conn_Do_proj(1))
  define w2 where "w2 = snd (http_PostForm (akismetCheckURL key) (form_data vals) ?w1)"
  have w2: "redis w2 = redis w" "conn_reply ?z w2 = Inr (Integer 1)" "w' = snd (conn_Do ?z w2)"
    using assms key r1 vals
    by (auto simp: w2_def autoApproveComment_def conn_Do_proj(1) redis_Bool_ZADD
        split: sum.splits if_splits)
  note za = ZADD_added[OF w2(2)]
  show "FormatInt (sint cid) \<notin> ApprovedIndex (redis w) host path"
    using za(1) w2(1) by (simp add: ApprovedIndex_def)
  show "ApprovedIndex (redis w') host path = insert (FormatInt (sint cid)) (ApprovedIndex (redis w) host path)"
    using za(2) w2(1,3) by (simp add: ApprovedIndex_def)
  show "\<forall>k. k \<noteq> keyApproved host path \<longrightarrow> redis w' k = redis w k"
    using w2(1,3) by (simp add: ZADD_other_keys)
qed

lemma field_AddFlat:
  "field (Some (hmset (AddFlat req) h0)) ''comment_author'' = Author req"
  "field (Some (hmset (AddFlat req) h0)) ''comment_content'' = Content req"
  by (simp_all add: field_def map_of_hmset AddFlat_def map_add_def)

lemma escape_example: "EscapeString ''<b>hi</b>'' = ''&lt;b&gt;hi&lt;/b&gt;''"
  by (simp add: EscapeString_def escape_byte_def)

text \<open>
  Claim C10: when \<^verbatim>\<open>saveComment\<close> returns an error and its last effect is the failed \<^verbatim>\<open>HMSET\<close>
  (so the add before it reported an insertion), the identifier was not in the index of all
  comments of the thread before the call and is in it after: the insertion is not rolled
  back. The comment key holds what it held before; if before the call every comment record
  of the thread belonged to an identifier of the index, no comment record is stored for the
  identifier. The handler answers such a submission with status 500.
\<close>

theorem record_write_fails:
  assumes "run (saveComment fuel req) w = (Some (cid, Some e), w')"
    and "last (trace w') = EDo (HMSET (keyComment (req_host req) (req_path req) cid) (AddFlat req)) (Inl e)"
  shows "FormatInt (sint cid) \<notin> AllIndex (redis w) (req_host req) (req_path req) \<and>
         FormatInt (sint cid) \<in> AllIndex (redis w') (req_host req) (req_path req) \<and>
         redis w' (keyComment (req_host req) (req_path req) cid) =
           redis w (keyComment (req_host req) (req_path req) cid) \<and>
         ((\<forall>i. FormatInt (sint i) \<notin> AllIndex (redis w) (req_host req) (req_path req) \<longrightarrow>
               CommentRecord (redis w) (req_host req) (req_path req) i = None) \<longrightarrow>
            CommentRecord (redis w') (req_host req) (req_path req) cid = None) \<and>
         (Method r = ''POST'' \<and> cleanCommentSubmitRequest d r = Inr req \<and>
          run (autoEnabled (req_host req) (req_path req)) w0 = (Some (True, None), w) \<longrightarrow>
            run (commentHandler d fuel r) w0 =
              (Some (form_error r @ [HttpError ''backend error'' 500]), log_Print (LogError e) w'))"
proof -
  from saveComment_fails[OF assms(1)] assms(2)
  have a: "FormatInt (sint cid) \<notin> AllIndex (redis w) (req_host req) (req_path req)"
    and b: "AllIndex (redis w') (req_host req) (req_path req) =
              insert (FormatInt (sint cid)) (AllIndex (redis w) (req_host req) (req_path req))"
    and c: "redis w' (keyComment (req_host req) (req_path req) cid) =
              redis w (keyComment (req_host req) (req_path req) cid)"
    by auto
  have d: "CommentRecord (redis w') (req_host req) (req_path req) cid =
      CommentRecord (redis w) (req_host req) (req_path req) cid"
    using c by (simp add: CommentRecord_def)
  show ?thesis
    using a b c d run_commentHandler_POST(1)[OF _ _ _ assms(1), of r d w0 e]
    by auto
qed

text \<open>
  Claim C5: in a POST whose comment was stored (\<^verbatim>\<open>saveComment\<close> returned an identifier and no
  error), an error of \<^verbatim>\<open>autoApproveComment\<close> does not fail the request: the handler's last
  write is the redirect to the permalink with status 302 (its only write when the form
  parsed). The classification that failed reports \<^verbatim>\<open>approved = false\<close> and has left the store
  as \<^verbatim>\<open>saveComment\<close> left it: the identifier is in the index of all comments, its record is
  stored, and the approved index of the thread is what it was before the submission; the
  identifier is not in it when the approved index was within the index of all comments.
\<close>

theorem classification_error_not_fatal:
  assumes "Method r = ''POST''" and "cleanCommentSubmitRequest d r = Inr req"
    and "run (autoEnabled (req_host req) (req_path req)) w0 = (Some (True, None), w1)"
    and "run (saveComment fuel req) w1 = (Some (cid, None), w2)"
    and "run (autoApproveComment (akismetKey d) (req_host req) (req_path req) cid) w2 =
           (Some (approved, Some e), w3)"
  shows "run (commentHandler d fuel r) w0 =
           (Some (form_error r @ [Redirect (Permalink req) 302]),
            log_Print (LogNew False (req_host req) (req_path req) cid) (log_Print (LogError e) w3)) \<and>
         (ParseForm r = None \<longrightarrow> fst (run (commentHandler d fuel r) w0) = Some [Redirect (Permalink req) 302]) \<and>
         approved = False \<and> redis w3 = redis w2 \<and>
         FormatInt (sint cid) \<in> AllIndex (redis w3) (req_host req) (req_path req) \<and>
         CommentRecord (redis w3) (req_host req) (req_path req) cid =
           Some (hmset (AddFlat req)
                  (case CommentRecord (redis w1) (req_host req) (req_path req) cid of None \<Rightarrow> [] | Some h \<Rightarrow> h)) \<and>
         ApprovedIndex (redis w3) (req_host req) (req_path req) =
           ApprovedIndex (redis w1) (req_host req) (req_path req) \<and>
         (ApprovedIndex (redis w1) (req_host req) (req_path req) \<subseteq> AllIndex (redis w1) (req_host req) (req_path req) \<longrightarrow>
            FormatInt (sint cid) \<notin> ApprovedIndex (redis w3) (req_host req) (req_path req))"
proof -
  note ae = autoApproveComment_error[OF assms(5)]
  from saveComment_returns[OF assms(4)]
  have fresh: "FormatInt (sint cid) \<notin> AllIndex (redis w1) (req_host req) (req_path req)"
    and ins: "AllIndex (redis w2) (req_host req) (req_path req) =
                insert (FormatInt (sint cid)) (AllIndex (redis w1) (req_host req) (req_path req))"
    and rec: "CommentRecord (redis w2) (req_host req) (req_path req) cid =
           Some (hmset (AddFlat req)
                  (case CommentRecord (redis w1) (req_host req) (req_path req) cid of None \<Rightarrow> [] | Some h \<Rightarrow> h))"
    by auto
  have appr: "ApprovedIndex (redis w2) (req_host req) (req_path req) =
      ApprovedIndex (redis w1) (req_host req) (req_path req)"
    using run_approved_unchanged[OF saveComment_cmds[of fuel req], of w1] assms(4) by simp
  have h: "run (commentHandler d fuel r) w0 =
           (Some (form_error r @ [Redirect (Permalink req) 302]),
            log_Print (LogNew False (req_host req) (req_path req) cid) (log_Print (LogError e) w3))"
    using run_commentHandler_POST(2)[OF assms(1,2,3,4) refl assms(5)] ae by simp
  show ?thesis
    using h ae fresh ins rec appr by (auto simp: form_error_def)
qed

lemma autoApproveComment_keeps_records:
  "CommentRecord (redis (snd (run (autoApproveComment key host path cid) w))) h p i = CommentRecord (redis w) h p i"
proof -
  have "all_cmds (\<lambda>c. c = HGETALL (keyComment host path cid) \<or>
                       c = ZADD (keyApproved host path) (sint cid) (FormatInt (sint cid)))
          (autoApproveComment key host path cid)"
    by (auto simp: autoApproveComment_def split: sum.splits)
  then show ?thesis
    by (rule run_invariant[where I = "\<lambda>s. CommentRecord s h p i = CommentRecord (redis w) h p i"])
      (auto simp: CommentRecord_def exec_other_key key_neq simp del: redis_exec.simps)
qed

lemma keyComment_inj: "(keyComment h p a = keyComment h p b) = (a = b)"
  by (auto simp: keyComment_def dest: FormatInt_inj)

lemma take_sorted_member:
  fixes f :: "'a \<Rightarrow> int"
  assumes "sorted_wrt (<) (map f xs)"
  shows "(x \<in> set (take n xs)) = (x \<in> set xs \<and> length (filter (\<lambda>y. f y < f x) xs) < n)"
  using assms
proof (induction xs arbitrary: n)
  case Nil
  then show ?case by simp
next
  case (Cons a xs)
  have lt: "\<forall>y \<in> set xs. f a < f y" and s: "sorted_wrt (<) (map f xs)"
    using Cons.prems by simp_all
  show ?case
  proof (cases n)
    case 0
    then show ?thesis by simp
  next
    case (Suc m)
    have fa: "filter (\<lambda>y. f y < f a) xs = []"
      using lt by (auto simp: filter_empty_conv)
    show ?thesis
    proof (cases "x = a")
      case True
      then show ?thesis using Suc fa by simp
    next
      case False
      show ?thesis
      proof (cases "x \<in> set xs")
        case True
        then have "f a < f x" using lt by simp
        then show ?thesis
          using Suc False True Cons.IH[OF s, of m] by simp
      next
        case False
        then have "x \<notin> set (take m xs)" by (auto dest: in_set_takeD)
        then show ?thesis using Suc False \<open>x \<noteq> a\<close> by simp
      qed
    qed
  qed
qed


text \<open>
  Claim C8, amended: a comment stored by \<^verbatim>\<open>saveComment\<close> and promoted by
  \<^verbatim>\<open>autoApproveComment\<close> (which returned \<^verbatim>\<open>approved = true\<close>) is in the approved index, and
  \<^verbatim>\<open>getComments\<close> on the thread, with the store reachable, returns a slice in which every entry
  with the comment's identifier carries the submitted author and content, HTML-escaped. That
  entry is in the slice when fewer than ten identifiers of the approved index are lower than
  the comment's (it is then among the ten that are listed), and no entry has the comment's
  identifier when ten or more are lower. The content \<^verbatim>\<open><b>hi</b>\<close> is escaped to
  \<^verbatim>\<open>&lt;b&gt;hi&lt;/b&gt;\<close>.
\<close>

theorem approved_comment_listed:
  assumes "schema (redis w1)"
    and "run (saveComment fuel req) w1 = (Some (cid, None), w2)"
    and "run (autoApproveComment key (req_host req) (req_path req) cid) w2 = (Some (True, None), w3)"
    and "\<forall>n. \<not> fails w3 n"
  shows "\<exists>cs. fst (run (getComments (req_host req) (req_path req)) w3) = Some (Slice cs, None) \<and>
           (\<forall>c \<in> set cs. comment_ID c = FormatInt (sint cid) \<longrightarrow>
              comment_Author c = EscapeString (Author req) \<and>
              comment_Content c = EscapeString (Content req)) \<and>
           (FormatInt (sint cid) \<in> set (take 10 (index_list (redis w3 (keyApproved (req_host req) (req_path req))))) \<longrightarrow>
              \<lparr>comment_ID = FormatInt (sint cid),
               comment_Author = EscapeString (Author req),
               comment_Content = EscapeString (Content req)\<rparr> \<in> set cs) \<and>
           (length (filter (\<lambda>i. sint (fst (ParseInt i)) < sint cid)
                      (index_list (redis w3 (keyApproved (req_host req) (req_path req))))) < 10 \<longrightarrow>
              \<lparr>comment_ID = FormatInt (sint cid),
               comment_Author = EscapeString (Author req),
               comment_Content = EscapeString (Content req)\<rparr> \<in> set cs) \<and>
           (10 \<le> length (filter (\<lambda>i. sint (fst (ParseInt i)) < sint cid)
                      (index_list (redis w3 (keyApproved (req_host req) (req_path req))))) \<longrightarrow>
              FormatInt (sint cid) \<notin> comment_ID ` set cs) \<and>
           FormatInt (sint cid) \<in> ApprovedIndex (redis w3) (req_host req) (req_path req) \<and>
           EscapeString ''<b>hi</b>'' = ''&lt;b&gt;hi&lt;/b&gt;''"
proof -
  let ?h = "req_host req" and ?p = "req_path req"
  let ?m = "FormatInt (sint cid)"
  let ?ix = "index_list (redis w3 (keyApproved ?h ?p))"
  let ?ms = "take 10 ?ix"
  let ?e = "\<lparr>comment_ID = ?m, comment_Author = EscapeString (Author req),
             comment_Content = EscapeString (Content req)\<rparr>"
  have s2: "schema (redis w2)"
    using run_schema[OF all_cmds_mono[OF saveComment_cmds[of fuel req] program_commandI(1)] assms(1)] assms(2)
    by simp
  have s3: "schema (redis w3)"
    using run_schema[OF autoApproveComment_cmds[of key ?h ?p cid] s2] assms(3) by simp
  from saveComment_returns[OF assms(2)] obtain h0 where
    rec2: "CommentRecord (redis w2) ?h ?p cid = Some (hmset (AddFlat req) h0)" by auto
  have rec3: "CommentRecord (redis w3) ?h ?p cid = Some (hmset (AddFlat req) h0)"
    using autoApproveComment_keeps_records[of key ?h ?p cid w2 ?h ?p cid] assms(3) rec2 by simp
  have ent: "entry (redis w3) ?h ?p ?m = ?e"
    by (simp add: entry_def ParseInt_FormatInt rec3 field_AddFlat)
  have run: "fst (run (getComments ?h ?p) w3) = Some (Slice (map (entry (redis w3) ?h ?p) ?ms), None)"
    using getComments_run[OF assms(4) s3] by simp
  have 1: "\<forall>c \<in> set (map (entry (redis w3) ?h ?p) ?ms). comment_ID c = ?m \<longrightarrow>
              comment_Author c = EscapeString (Author req) \<and> comment_Content c = EscapeString (Content req)"
  proof
    fix c assume "c \<in> set (map (entry (redis w3) ?h ?p) ?ms)"
    then obtain i where i: "c = entry (redis w3) ?h ?p i" by auto
    show "comment_ID c = ?m \<longrightarrow>
              comment_Author c = EscapeString (Author req) \<and> comment_Content c = EscapeString (Content req)"
    proof
      assume "comment_ID c = ?m"
      then have "i = ?m" using i by (simp add: entry_def)
      then show "comment_Author c = EscapeString (Author req) \<and> comment_Content c = EscapeString (Content req)"
        using i ent by simp
    qed
  qed
  have 2: "?m \<in> set ?ms \<longrightarrow> ?e \<in> set (map (entry (redis w3) ?h ?p) ?ms)"
    using ent by force
  have 3: "?m \<in> ApprovedIndex (redis w3) ?h ?p"
    using autoApproveComment_approved(2)[OF assms(3)] by simp
  have idx: "index_ok (redis w3 (keyApproved ?h ?p))" using s3 by (simp add: schema_def)
  have mem: "?m \<in> set ?ix"
    using 3 by (simp add: index_list_members ApprovedIndex_def)
  have low: "(?m \<in> set ?ms) =
      (length (filter (\<lambda>i. sint (fst (ParseInt i)) < sint cid) ?ix) < 10)"
    using take_sorted_member[OF index_list_ascending[OF idx], of ?m 10] mem
    by (simp add: ParseInt_FormatInt)
  have 4: "length (filter (\<lambda>i. sint (fst (ParseInt i)) < sint cid) ?ix) < 10 \<longrightarrow>
             ?e \<in> set (map (entry (redis w3) ?h ?p) ?ms)"
    using 2 low by simp
  have ids: "comment_ID ` set (map (entry (redis w3) ?h ?p) ?ms) = set ?ms"
    by (auto simp: entry_def image_iff)
  have 5: "10 \<le> length (filter (\<lambda>i. sint (fst (ParseInt i)) < sint cid) ?ix) \<longrightarrow>
             ?m \<notin> comment_ID ` set (map (entry (redis w3) ?h ?p) ?ms)"
    unfolding ids using low by simp
  show ?thesis
    using run 1 2 3 4 5 escape_example by (intro exI[of _ "map (entry (redis w3) ?h ?p) ?ms"] conjI)
qed

subsection \<open>The scenario, evaluated\<close>

lemma scenario_clean: "cleanCommentSubmitRequest scenario_deps scenario_request = Inr scenario_req"
  by (simp add: cleanCommentSubmitRequest_def scenario_deps_def scenario_request_def scenario_req_def
      FormValue_def Header_Get_def)

lemma scenario_time: "sint (word_of_int 1700000000 :: int64) = 1700000000"
  by (simp add: sint_word_of_int64)

lemma scenario_format: "FormatInt 1700000000 = ''1700000000''"
  by (simp add: FormatInt_def digits.simps digit_char_def)

lemma run_result: "(run p w = (a, snd (run p w))) = (fst (run p w) = a)"
  by (cases "run p w") auto

lemma string_pairs_hgetall: "string_pairs (hgetall h) = Inr h"
  by (induction h) (auto simp: hgetall_def)

lemma CommentRecord_Some: "CommentRecord s h p i = Some x \<Longrightarrow> s (keyComment h p i) = Some (RHash x)"
  by (auto simp: CommentRecord_def split: option.splits rvalue.splits)

lemmas scenario_simps =
  scenario_world_def scenario_req_def commentSubmitRequest.simps
  autoEnabled_def saveComment_store_def autoApproveComment_def
  conn_Do_proj conn_reply_alt fails_conn_Do fails_def redis_Bool_def redis_String_def
  redis_Values_def redis_StringMap_def http_reply_def ParseBool_def
  key_neq scenario_time scenario_format AddFlat_def wrongtype_def even_hgetall string_pairs_hgetall

theorem classification_error_not_fatal_witness:
  "fst (run (commentHandler scenario_deps (Suc 0) scenario_request) (scenario_world [] [])) =
     Some [Redirect ''https://example.com/post'' 302] \<and>
   ''1700000000'' \<in> AllIndex (redis (snd (run (commentHandler scenario_deps (Suc 0) scenario_request) (scenario_world [] []))))
       ''example.com'' ''/post'' \<and>
   ''1700000000'' \<notin> ApprovedIndex (redis (snd (run (commentHandler scenario_deps (Suc 0) scenario_request) (scenario_world [] []))))
       ''example.com'' ''/post''"
proof -
  define w0 where "w0 = scenario_world [] []"
  define w1 where "w1 = snd (run (autoEnabled ''example.com'' ''/post'') w0)"
  define w2 where "w2 = snd (run (saveComment (Suc 0) scenario_req) w1)"
  define c :: int64 where "c = word_of_int 1700000000"
  define w3 where "w3 = snd (run (autoApproveComment ''key'' ''example.com'' ''/post'' c) w2)"
  have 1: "run (autoEnabled (req_host scenario_req) (req_path scenario_req)) w0 = (Some (True, None), w1)"
    unfolding w1_def w0_def by (simp add: run_result scenario_simps)
  have r1: "redis w1 = [keyAutoEnable \<mapsto> RSet {''example.com''}, keyEnabled ''example.com'' ''/post'' \<mapsto> RString ''true'']"
    and f1: "faults w1 = []" and n1: "now w1 = 1700000000" and a1: "akismet w1 = []"
    unfolding w1_def w0_def by (simp_all add: scenario_simps)
  have 2: "run (saveComment (Suc 0) scenario_req) w1 = (Some (c, None), w2)"
    unfolding w2_def c_def by (simp add: run_result scenario_simps r1 f1 n1)
  have f2: "faults w2 = []" and a2: "akismet w2 = []"
    unfolding w2_def by (simp_all add: scenario_simps r1 f1 n1 a1)
  from saveComment_returns[OF 2] obtain h where
    "CommentRecord (redis w2) (req_host scenario_req) (req_path scenario_req) c = Some h" by blast
  then have rec2: "redis w2 (keyComment ''example.com'' ''/post'' c) = Some (RHash h)"
    using CommentRecord_Some by (simp add: scenario_req_def)
  have 3: "run (autoApproveComment (akismetKey scenario_deps) (req_host scenario_req) (req_path scenario_req) c) w2 =
             (Some (False, Some ErrHttp), w3)"
    unfolding w3_def by (simp add: run_result scenario_simps scenario_deps_def f2 a2 rec2)
  have m: "Method scenario_request = ''POST''" "ParseForm scenario_request = None"
    by (simp_all add: scenario_request_def)
  have ai: "ApprovedIndex (redis w1) ''example.com'' ''/post'' = {}"
    by (simp add: r1 ApprovedIndex_def key_neq)
  have cf: "FormatInt (sint c) = ''1700000000''"
    by (simp add: c_def scenario_time scenario_format)
  have q: "req_host scenario_req = ''example.com''" "req_path scenario_req = ''/post''"
    "Permalink scenario_req = ''https://example.com/post''"
    by (simp_all add: scenario_req_def)
  from classification_error_not_fatal[OF m(1) scenario_clean 1 2 3]
  have A: "run (commentHandler scenario_deps (Suc 0) scenario_request) w0 =
           (Some (form_error scenario_request @ [Redirect (Permalink scenario_req) 302]),
            log_Print (LogNew False (req_host scenario_req) (req_path scenario_req) c) (log_Print (LogError ErrHttp) w3))"
    and B: "FormatInt (sint c) \<in> AllIndex (redis w3) (req_host scenario_req) (req_path scenario_req)"
    and C: "ApprovedIndex (redis w1) (req_host scenario_req) (req_path scenario_req)
              \<subseteq> AllIndex (redis w1) (req_host scenario_req) (req_path scenario_req) \<longrightarrow>
            FormatInt (sint c) \<notin> ApprovedIndex (redis w3) (req_host scenario_req) (req_path scenario_req)"
    by blast+
  have fe: "form_error scenario_request = []" using m(2) by (simp add: form_error_def)
  have "fst (run (commentHandler scenario_deps (Suc 0) scenario_request) w0) = Some [Redirect ''https://example.com/post'' 302]"
    unfolding A fe q by simp
  moreover have "redis (snd (run (commentHandler scenario_deps (Suc 0) scenario_request) w0)) = redis w3"
    unfolding A by simp
  ultimately show ?thesis
    using B C ai unfolding cf q w0_def by simp
qed

theorem record_write_fails_witness:
  "fst (run (commentHandler scenario_deps (Suc 0) scenario_request)
          (scenario_world [False, False, False, False, True] [])) =
     Some [HttpError ''backend error'' 500] \<and>
   ''1700000000'' \<in> AllIndex
      (redis (snd (run (saveComment (Suc 0) scenario_req)
         (snd (run (autoEnabled ''example.com'' ''/post'') (scenario_world [False, False, False, False, True] []))))))
      ''example.com'' ''/post'' \<and>
   CommentRecord
      (redis (snd (run (saveComment (Suc 0) scenario_req)
         (snd (run (autoEnabled ''example.com'' ''/post'') (scenario_world [False, False, False, False, True] []))))))
      ''example.com'' ''/post'' (word_of_int 1700000000) = None"
proof -
  define w0 where "w0 = scenario_world [False, False, False, False, True] []"
  define w1 where "w1 = snd (run (autoEnabled ''example.com'' ''/post'') w0)"
  define w2 where "w2 = snd (run (saveComment (Suc 0) scenario_req) w1)"
  define c :: int64 where "c = word_of_int 1700000000"
  have 1: "run (autoEnabled (req_host scenario_req) (req_path scenario_req)) w0 = (Some (True, None), w1)"
    unfolding w1_def w0_def by (simp add: run_result scenario_simps)
  have r1: "redis w1 = [keyAutoEnable \<mapsto> RSet {''example.com''}, keyEnabled ''example.com'' ''/post'' \<mapsto> RString ''true'']"
    and f1: "faults w1 = [False, True]" and n1: "now w1 = 1700000000"
    unfolding w1_def w0_def by (simp_all add: scenario_simps)
  have 2: "run (saveComment (Suc 0) scenario_req) w1 = (Some (c, Some ErrConn), w2)"
    unfolding w2_def c_def by (simp add: run_result scenario_simps r1 f1 n1)
  have 3: "last (trace w2) =
      EDo (HMSET (keyComment (req_host scenario_req) (req_path scenario_req) c) (AddFlat scenario_req)) (Inl ErrConn)"
    unfolding w2_def c_def by (simp add: scenario_simps r1 f1 n1)
  have m: "Method scenario_request = ''POST''" "form_error scenario_request = []"
    by (simp_all add: scenario_request_def form_error_def)
  have cf: "FormatInt (sint c) = ''1700000000''"
    by (simp add: c_def scenario_time scenario_format)
  have q: "req_host scenario_req = ''example.com''" "req_path scenario_req = ''/post''"
    by (simp_all add: scenario_req_def)
  have none: "\<forall>i. FormatInt (sint i) \<notin> AllIndex (redis w1) (req_host scenario_req) (req_path scenario_req) \<longrightarrow>
               CommentRecord (redis w1) (req_host scenario_req) (req_path scenario_req) i = None"
    by (simp add: r1 CommentRecord_def key_neq)
  from record_write_fails[OF 2 3, of scenario_request scenario_deps w0]
  have A: "FormatInt (sint c) \<in> AllIndex (redis w2) (req_host scenario_req) (req_path scenario_req)"
    and B: "CommentRecord (redis w2) (req_host scenario_req) (req_path scenario_req) c = None"
    and C: "run (commentHandler scenario_deps (Suc 0) scenario_request) w0 =
              (Some (form_error scenario_request @ [HttpError ''backend error'' 500]), log_Print (LogError ErrConn) w2)"
    using none m(1) scenario_clean 1 by blast+
  have H: "fst (run (commentHandler scenario_deps (Suc 0) scenario_request) w0) = Some [HttpError ''backend error'' 500]"
    unfolding C m by simp
  have A': "''1700000000'' \<in> AllIndex (redis w2) ''example.com'' ''/post''"
    using A unfolding cf q .
  have B': "CommentRecord (redis w2) ''example.com'' ''/post'' c = None"
    using B unfolding q .
  show ?thesis
    using H A' B' unfolding w2_def w1_def w0_def c_def by blast
qed

lemma index_ok_older: "index_ok (Some (RZSet older_ids))"
  by (simp add: index_ok_def older_ids_def FormatInt_def digits.simps digit_char_def)

lemma record_ok_older: "record_ok (Some older_record)"
  by (simp add: record_ok_def older_record_def)

lemma schema_crowded: "schema (redis crowded_world)"
  unfolding crowded_world_def world.simps
  by (intro schema_upd_comment schema_upd_approved schema_upd_all schema_empty index_ok_older record_ok_older)

lemma crowded_simps:
  "faults crowded_world = []" "now crowded_world = 1700000000"
  "akismet crowded_world = [Inr (Inr ''false'')]" "trace crowded_world = []"
  "redis crowded_world (keyAll ''example.com'' ''/post'') = Some (RZSet older_ids)"
  "redis crowded_world (keyApproved ''example.com'' ''/post'') = Some (RZSet older_ids)"
  "redis crowded_world (keyComment ''example.com'' ''/post'' 1700000000) = None"
  by (simp_all add: crowded_world_def key_neq keyComment_inj)

text \<open>
  Claim C8, as stated, fails: on a thread with ten older approved comments, a comment is
  stored by \<^verbatim>\<open>saveComment\<close> at the clock value 1700000000 and promoted by
  \<^verbatim>\<open>autoApproveComment\<close> into the approved index, and \<^verbatim>\<open>getComments\<close> returns the ten older
  comments and no entry for it: the range query asks for the first ten members in ascending
  order.
\<close>

theorem approved_comment_listed_counterexample:
  "fst (run (saveComment (Suc 0) scenario_req) crowded_world) = Some (word_of_int 1700000000, None) \<and>
   fst (run (autoApproveComment ''key'' ''example.com'' ''/post'' (word_of_int 1700000000))
          (snd (run (saveComment (Suc 0) scenario_req) crowded_world))) = Some (True, None) \<and>
   ''1700000000'' \<in> ApprovedIndex
      (redis (snd (run (autoApproveComment ''key'' ''example.com'' ''/post'' (word_of_int 1700000000))
                 (snd (run (saveComment (Suc 0) scenario_req) crowded_world)))))
      ''example.com'' ''/post'' \<and>
   fst (run (getComments ''example.com'' ''/post'')
          (snd (run (autoApproveComment ''key'' ''example.com'' ''/post'' (word_of_int 1700000000))
                 (snd (run (saveComment (Suc 0) scenario_req) crowded_world))))) =
     Some (Slice [\<lparr>comment_ID = ''1'', comment_Author = ''x'', comment_Content = ''y''\<rparr>,
                  \<lparr>comment_ID = ''2'', comment_Author = ''x'', comment_Content = ''y''\<rparr>,
                  \<lparr>comment_ID = ''3'', comment_Author = ''x'', comment_Content = ''y''\<rparr>,
                  \<lparr>comment_ID = ''4'', comment_Author = ''x'', comment_Content = ''y''\<rparr>,
                  \<lparr>comment_ID = ''5'', comment_Author = ''x'', comment_Content = ''y''\<rparr>,
                  \<lparr>comment_ID = ''6'', comment_Author = ''x'', comment_Content = ''y''\<rparr>,
                  \<lparr>comment_ID = ''7'', comment_Author = ''x'', comment_Content = ''y''\<rparr>,
                  \<lparr>comment_ID = ''8'', comment_Author = ''x'', comment_Content = ''y''\<rparr>,
                  \<lparr>comment_ID = ''9'', comment_Author = ''x'', comment_Content = ''y''\<rparr>,
                  \<lparr>comment_ID = ''10'', comment_Author = ''x'', comment_Content = ''y''\<rparr>], None)"
proof -
  define c :: int64 where "c = word_of_int 1700000000"
  define w2 where "w2 = snd (run (saveComment (Suc 0) scenario_req) crowded_world)"
  define w3 where "w3 = snd (run (autoApproveComment ''key'' ''example.com'' ''/post'' c) w2)"
  have cs: "sint c = 1700000000" by (simp add: c_def scenario_time)
  have q: "req_host scenario_req = ''example.com''" "req_path scenario_req = ''/post''"
    by (simp_all add: scenario_req_def)
  have 1: "fst (run (saveComment (Suc 0) scenario_req) crowded_world) = Some (c, None)"
    unfolding c_def
    by (simp add: scenario_simps crowded_simps older_ids_def del: scenario_world_def)
  then have 2: "run (saveComment (Suc 0) scenario_req) crowded_world = (Some (c, None), w2)"
    unfolding w2_def by (simp add: run_result)
  have f2: "faults w2 = []" and a2: "akismet w2 = [Inr (Inr ''false'')]"
    and k2: "redis w2 (keyApproved ''example.com'' ''/post'') = Some (RZSet older_ids)"
    unfolding w2_def by (simp_all add: scenario_simps crowded_simps older_ids_def)
  from saveComment_returns[OF 2] obtain h where
    "CommentRecord (redis w2) (req_host scenario_req) (req_path scenario_req) c = Some h" by blast
  then have rec2: "redis w2 (keyComment ''example.com'' ''/post'' c) = Some (RHash h)"
    using CommentRecord_Some by (simp add: scenario_req_def)
  have 3: "fst (run (autoApproveComment ''key'' ''example.com'' ''/post'' c) w2) = Some (True, None)"
    by (simp add: scenario_simps f2 a2 rec2 k2 cs older_ids_def)
  then have r3: "run (autoApproveComment ''key'' ''example.com'' ''/post'' c) w2 = (Some (True, None), w3)"
    unfolding w3_def by (simp add: run_result)
  have 4: "''1700000000'' \<in> ApprovedIndex (redis w3) ''example.com'' ''/post''"
    using autoApproveComment_approved(2)[OF r3] by (simp add: cs scenario_format)
  have f3: "\<forall>n. \<not> fails w3 n"
    unfolding w3_def by (simp add: scenario_simps f2 a2 rec2 k2 cs older_ids_def)
  have k3: "redis w3 (keyApproved ''example.com'' ''/post'') =
              Some (RZSet (older_ids @ [(1700000000, ''1700000000'')]))"
    unfolding w3_def by (simp add: scenario_simps f2 a2 rec2 k2 cs older_ids_def zadd_def)
  have s2: "schema (redis w2)"
    unfolding w2_def
    by (rule run_schema[OF all_cmds_mono[OF saveComment_cmds program_commandI(1)] schema_crowded])
  have s3: "schema (redis w3)"
    unfolding w3_def by (rule run_schema[OF autoApproveComment_cmds s2])
  have old: "CommentRecord (redis w3) ''example.com'' ''/post'' n =
               CommentRecord (redis crowded_world) ''example.com'' ''/post'' n" if "n \<noteq> c" for n
  proof -
    have "CommentRecord (redis w3) ''example.com'' ''/post'' n = CommentRecord (redis w2) ''example.com'' ''/post'' n"
      using autoApproveComment_approved(3)[OF r3] by (simp add: CommentRecord_def key_neq)
    moreover have "redis w2 (keyComment ''example.com'' ''/post'' n) =
                   redis crowded_world (keyComment ''example.com'' ''/post'' n)"
      using that unfolding w2_def c_def
      by (simp add: scenario_simps crowded_simps older_ids_def keyComment_inj)
    ultimately show ?thesis by (simp add: CommentRecord_def)
  qed
  have run: "fst (run (getComments ''example.com'' ''/post'') w3) =
      Some (Slice (map (entry (redis w3) ''example.com'' ''/post'')
                     (take 10 (index_list (redis w3 (keyApproved ''example.com'' ''/post''))))), None)"
    using getComments_run[OF f3 s3] by simp
  have ms: "take 10 (index_list (redis w3 (keyApproved ''example.com'' ''/post''))) = map snd older_ids"
    unfolding k3 by (simp add: index_list_def older_ids_def)
  have P: "ParseInt ''1'' = (1, None)" "ParseInt ''2'' = (2, None)" "ParseInt ''3'' = (3, None)"
    "ParseInt ''4'' = (4, None)" "ParseInt ''5'' = (5, None)" "ParseInt ''6'' = (6, None)"
    "ParseInt ''7'' = (7, None)" "ParseInt ''8'' = (8, None)" "ParseInt ''9'' = (9, None)"
    "ParseInt ''10'' = (10, None)"
    by (simp_all add: ParseInt_def ParseUint_def is_digit_def digit_val_def maxUint64_def)
  have ne: "(1::int64) \<noteq> c" "(2::int64) \<noteq> c" "(3::int64) \<noteq> c" "(4::int64) \<noteq> c" "(5::int64) \<noteq> c"
    "(6::int64) \<noteq> c" "(7::int64) \<noteq> c" "(8::int64) \<noteq> c" "(9::int64) \<noteq> c" "(10::int64) \<noteq> c"
    unfolding c_def by simp_all
  have R: "CommentRecord (redis crowded_world) ''example.com'' ''/post'' n =
             Some [(''comment_author'', ''x''), (''comment_content'', ''y'')]"
    if "n \<in> {1, 2, 3, 4, 5, 6, 7, 8, 9, 10}" for n
    using that by (auto simp: CommentRecord_def crowded_world_def older_record_def keyComment_inj)
  have "map (entry (redis w3) ''example.com'' ''/post'')
          (map snd older_ids) =
        [\<lparr>comment_ID = ''1'', comment_Author = ''x'', comment_Content = ''y''\<rparr>,
                  \<lparr>comment_ID = ''2'', comment_Author = ''x'', comment_Content = ''y''\<rparr>,
                  \<lparr>comment_ID = ''3'', comment_Author = ''x'', comment_Content = ''y''\<rparr>,
                  \<lparr>comment_ID = ''4'', comment_Author = ''x'', comment_Content = ''y''\<rparr>,
                  \<lparr>comment_ID = ''5'', comment_Author = ''x'', comment_Content = ''y''\<rparr>,
                  \<lparr>comment_ID = ''6'', comment_Author = ''x'', comment_Content = ''y''\<rparr>,
                  \<lparr>comment_ID = ''7'', comment_Author = ''x'', comment_Content = ''y''\<rparr>,
                  \<lparr>comment_ID = ''8'', comment_Author = ''x'', comment_Content = ''y''\<rparr>,
                  \<lparr>comment_ID = ''9'', comment_Author = ''x'', comment_Content = ''y''\<rparr>,
                  \<lparr>comment_ID = ''10'', comment_Author = ''x'', comment_Content = ''y''\<rparr>]"
    by (simp add: older_ids_def entry_def P old[OF ne(1)] old[OF ne(2)] old[OF ne(3)] old[OF ne(4)] old[OF ne(5)]
        old[OF ne(6)] old[OF ne(7)] old[OF ne(8)] old[OF ne(9)] old[OF ne(10)] R field_def
        EscapeString_def escape_byte_def)
  then have 5: "fst (run (getComments ''example.com'' ''/post'') w3) =
     Some (Slice [\<lparr>comment_ID = ''1'', comment_Author = ''x'', comment_Content = ''y''\<rparr>,
                  \<lparr>comment_ID = ''2'', comment_Author = ''x'', comment_Content = ''y''\<rparr>,
                  \<lparr>comment_ID = ''3'', comment_Author = ''x'', comment_Content = ''y''\<rparr>,
                  \<lparr>comment_ID = ''4'', comment_Author = ''x'', comment_Content = ''y''\<rparr>,
                  \<lparr>comment_ID = ''5'', comment_Author = ''x'', comment_Content = ''y''\<rparr>,
                  \<lparr>comment_ID = ''6'', comment_Author = ''x'', comment_Content = ''y''\<rparr>,
                  \<lparr>comment_ID = ''7'', comment_Author = ''x'', comment_Content = ''y''\<rparr>,
                  \<lparr>comment_ID = ''8'', comment_Author = ''x'', comment_Content = ''y''\<rparr>,
                  \<lparr>comment_ID = ''9'', comment_Author = ''x'', comment_Content = ''y''\<rparr>,
                  \<lparr>comment_ID = ''10'', comment_Author = ''x'', comment_Content = ''y''\<rparr>], None)"
    unfolding run ms by simp
  show ?thesis
    using 1 3 4 5 unfolding w3_def w2_def c_def by (intro conjI)
qed

theorem approved_comment_listed_witness:
  "\<exists>cs. fst (run (getComments ''example.com'' ''/post'')
           (snd (run (autoApproveComment ''key'' ''example.com'' ''/post'' (word_of_int 1700000000))
             (snd (run (saveComment (Suc 0) scenario_req)
               (snd (run (autoEnabled ''example.com'' ''/post'') (scenario_world [] [Inr (Inr ''false'')])))))))) =
          Some (Slice cs, None) \<and>
        \<lparr>comment_ID = ''1700000000'', comment_Author = ''a'', comment_Content = ''&lt;b&gt;hi&lt;/b&gt;''\<rparr> \<in> set cs"
proof -
  define w0 where "w0 = scenario_world [] [Inr (Inr ''false'')]"
  define w1 where "w1 = snd (run (autoEnabled ''example.com'' ''/post'') w0)"
  define w2 where "w2 = snd (run (saveComment (Suc 0) scenario_req) w1)"
  define c :: int64 where "c = word_of_int 1700000000"
  define w3 where "w3 = snd (run (autoApproveComment ''key'' ''example.com'' ''/post'' c) w2)"
  have r1: "redis w1 = [keyAutoEnable \<mapsto> RSet {''example.com''}, keyEnabled ''example.com'' ''/post'' \<mapsto> RString ''true'']"
    and f1: "faults w1 = []" and n1: "now w1 = 1700000000" and a1: "akismet w1 = [Inr (Inr ''false'')]"
    unfolding w1_def w0_def by (simp_all add: scenario_simps)
  have s1: "schema (redis w1)"
    unfolding r1 by (intro schema_upd_enabled schema_upd_auto schema_empty)
  have 2: "run (saveComment (Suc 0) scenario_req) w1 = (Some (c, None), w2)"
    unfolding w2_def c_def by (simp add: run_result scenario_simps r1 f1 n1)
  have f2: "faults w2 = []" and a2: "akismet w2 = [Inr (Inr ''false'')]"
    and k2: "redis w2 (keyApproved ''example.com'' ''/post'') = None"
    unfolding w2_def by (simp_all add: scenario_simps r1 f1 n1 a1)
  from saveComment_returns[OF 2] obtain h where
    "CommentRecord (redis w2) (req_host scenario_req) (req_path scenario_req) c = Some h" by blast
  then have rec2: "redis w2 (keyComment ''example.com'' ''/post'' c) = Some (RHash h)"
    using CommentRecord_Some by (simp add: scenario_req_def)
  have cs: "sint c = 1700000000" by (simp add: c_def scenario_time)
  have 3: "run (autoApproveComment ''key'' (req_host scenario_req) (req_path scenario_req) c) w2 =
             (Some (True, None), w3)"
    unfolding w3_def by (simp add: run_result scenario_simps f2 a2 rec2 k2 cs)
  have f3: "\<forall>n. \<not> fails w3 n" and k3: "redis w3 (keyApproved ''example.com'' ''/post'') = Some (RZSet [(1700000000, ''1700000000'')])"
    unfolding w3_def by (simp_all add: scenario_simps f2 a2 rec2 k2 cs)
  have q: "req_host scenario_req = ''example.com''" "req_path scenario_req = ''/post''"
    "Author scenario_req = ''a''" "Content scenario_req = ''<b>hi</b>''"
    by (simp_all add: scenario_req_def)
  have mem: "FormatInt (sint c) \<in> set (take 10 (index_list (redis w3 (keyApproved (req_host scenario_req) (req_path scenario_req)))))"
    unfolding q k3 by (simp add: index_list_def cs scenario_format)
  from approved_comment_listed[OF s1 2 3 f3] mem
  obtain cs' where "fst (run (getComments (req_host scenario_req) (req_path scenario_req)) w3) = Some (Slice cs', None)"
    and "\<lparr>comment_ID = FormatInt (sint c), comment_Author = EscapeString (Author scenario_req),
          comment_Content = EscapeString (Content scenario_req)\<rparr> \<in> set cs'"
    by blast
  then have "\<exists>cs. fst (run (getComments ''example.com'' ''/post'') w3) = Some (Slice cs, None) \<and>
        \<lparr>comment_ID = ''1700000000'', comment_Author = ''a'', comment_Content = ''&lt;b&gt;hi&lt;/b&gt;''\<rparr> \<in> set cs"
    unfolding q cs scenario_format escape_example
    by (auto simp: EscapeString_def escape_byte_def)
  then show ?thesis
    unfolding w3_def w2_def w1_def w0_def c_def .
qed

subsection \<open>Interleaved requests: the approved index stays within the index of all comments\<close>

lemma careful_invariant: "careful s s' \<Longrightarrow> approved_in_all s \<Longrightarrow> approved_in_all s'"
  unfolding careful_def approved_in_all_def grows_def by blast

lemma careful_refl [simp]: "careful s s"
  by (simp add: careful_def)

lemma plain_command_careful: "plain_command c \<Longrightarrow> careful s (snd (redis_exec c s))"
  unfolding careful_def
  by (simp add: program_command_grows plain_command_approved) (simp add: plain_command_def program_command_grows)

lemma conn_Do_careful_plain: "plain_command c \<Longrightarrow> careful (redis w) (redis (snd (conn_Do c w)))"
  by (simp add: conn_Do_proj plain_command_careful)

lemma same_thread_keys:
  assumes "keyApproved h p = keyApproved host path"
  shows "keyAll h p = keyAll host path"
proof -
  have "(h @ p) @ ''}:approved'' = (host @ path) @ ''}:approved''"
    using assms by (simp add: keyApproved_def)
  then have "h @ p = host @ path" by (simp only: append_same_eq)
  then have "(h @ p) @ ''}:all'' = (host @ path) @ ''}:all''" by simp
  then show ?thesis by (simp add: keyAll_def)
qed

lemma approve_careful:
  assumes "FormatInt (sint (cid::int64)) \<in> AllIndex s host path"
  shows "careful s (snd (redis_exec (ZADD (keyApproved host path) (sint cid) (FormatInt (sint cid))) s))"
  unfolding careful_def
proof (intro conjI allI)
  show "grows s (snd (redis_exec (ZADD (keyApproved host path) (sint cid) (FormatInt (sint cid))) s))"
    by (rule program_command_grows) (rule program_commandI(2))
  fix h p
  show "ApprovedIndex (snd (redis_exec (ZADD (keyApproved host path) (sint cid) (FormatInt (sint cid))) s)) h p
      \<subseteq> ApprovedIndex s h p \<union> AllIndex s h p"
  proof (cases "keyApproved h p = keyApproved host path")
    case True
    have a: "AllIndex s h p = AllIndex s host path"
      unfolding AllIndex_def same_thread_keys[OF True] ..
    have "zmembers (snd (redis_exec (ZADD (keyApproved host path) (sint cid) (FormatInt (sint cid))) s) (keyApproved host path))
        \<subseteq> insert (FormatInt (sint cid)) (zmembers (s (keyApproved host path)))"
      by (simp only: zmembers_exec_ZADD) auto
    then show ?thesis
      using assms unfolding ApprovedIndex_def True a by blast
  next
    case False
    then show ?thesis
      unfolding ApprovedIndex_def by (simp add: exec_other_key del: redis_exec.simps)
  qed
qed

lemma conn_Do_careful_approve:
  "FormatInt (sint (cid::int64)) \<in> AllIndex (redis w) host path \<Longrightarrow>
   careful (redis w) (redis (snd (conn_Do (ZADD (keyApproved host path) (sint cid) (FormatInt (sint cid))) w)))"
  by (simp add: conn_Do_proj approve_careful del: redis_exec.simps)

lemma grows_member: "grows s s' \<Longrightarrow> m \<in> AllIndex s h p \<Longrightarrow> m \<in> AllIndex s' h p"
  unfolding grows_def by blast

lemma safe_later: "safe Q p s \<Longrightarrow> grows s s' \<Longrightarrow> safe Q p s'"
proof (induction p arbitrary: s s')
  case (Return x)
  then show ?case by (auto intro: grows_trans)
next
  case (Do c k)
  then show ?case by (auto intro: grows_trans)
qed (simp_all, blast+)

lemma safe_weaken: "safe Q p s \<Longrightarrow> (\<And>x s. Q x s \<Longrightarrow> Q' x s) \<Longrightarrow> safe Q' p s"
  by (induction p arbitrary: s) auto

lemma safe_bind: "safe (\<lambda>x s'. safe Q (f x) s') p s \<Longrightarrow> safe Q (bind p f) s"
  by (induction p arbitrary: s) auto

lemma safe_plain: "all_cmds plain_command p \<Longrightarrow> safe (\<lambda>_ _. True) p s"
  by (induction p arbitrary: s) (auto simp: conn_Do_careful_plain)

lemma safe_saveComment_store:
  assumes "FormatInt (sint cid) \<in> AllIndex s (req_host req) (req_path req)"
  shows "safe (\<lambda>(c, err) s'. err = None \<longrightarrow> FormatInt (sint c) \<in> AllIndex s' (req_host req) (req_path req))
           (saveComment_store req cid) s"
proof -
  have "FormatInt (sint cid) \<in> AllIndex s' (req_host req) (req_path req)"
    if "grows s (redis w)" "grows (redis (snd (conn_Do c w))) s'" "plain_command c" for w c s'
    using that assms conn_Do_careful_plain[of c w]
    by (meson careful_def grows_member)
  then show ?thesis
    by (auto simp: saveComment_store_def conn_Do_careful_plain plain_commandI split: sum.splits)
qed

lemma safe_saveComment:
  "safe (\<lambda>(c, err) s'. err = None \<longrightarrow> FormatInt (sint c) \<in> AllIndex s' (req_host req) (req_path req))
     (saveComment fuel req) s"
proof (induction fuel arbitrary: s)
  case 0
  show ?case by simp
next
  case (Suc fuel)
  have "safe (\<lambda>(c, err) s'. err = None \<longrightarrow> FormatInt (sint c) \<in> AllIndex s' (req_host req) (req_path req))
           (saveComment_store req t) (redis (snd (conn_Do (ZADD (keyAll (req_host req) (req_path req)) (sint t) (FormatInt (sint t))) w)))"
    if "conn_reply (ZADD (keyAll (req_host req) (req_path req)) (sint t) (FormatInt (sint t))) w = Inr (Integer 1)"
    for t w
    using ZADD_added(2)[OF that] by (intro safe_saveComment_store) (simp add: AllIndex_def)
  then show ?case
    using Suc.IH
    by (auto simp: conn_Do_careful_plain plain_commandI conn_Do_proj(1) redis_Bool_ZADD split: sum.splits)
qed

lemma safe_autoApproveComment:
  assumes "FormatInt (sint cid) \<in> AllIndex s host path"
  shows "safe (\<lambda>_ _. True) (autoApproveComment key host path cid) s"
proof -
  have m: "FormatInt (sint cid) \<in> AllIndex s' host path" if "grows s s'" for s'
    using that assms by (rule grows_member)
  have c: "careful (redis w2) (redis (snd (conn_Do (ZADD (keyApproved host path) (sint cid) (FormatInt (sint cid))) w2)))"
    if "grows s (redis w)" "grows (redis (snd (conn_Do (HGETALL (keyComment host path cid)) w))) (redis w2)" for w w2
  proof -
    have "grows (redis w) (redis (snd (conn_Do (HGETALL (keyComment host path cid)) w)))"
      by (simp add: redis_after_HGETALL)
    then have "grows s (redis w2)" using that by (meson grows_trans)
    then show ?thesis by (intro conn_Do_careful_approve m)
  qed
  show ?thesis
    by (auto simp: autoApproveComment_def conn_Do_careful_plain plain_commandI c split: sum.splits)
qed

lemma safe_handleGET: "safe (\<lambda>_ _. True) (handleGET d r) s"
  by (rule safe_plain)
    (auto simp: handleGET_def Let_def intro!: all_cmds_bind getComments_cmds split: sum.splits option.splits)

lemma safe_handlePOST: "safe (\<lambda>_ _. True) (handlePOST d fuel r) s"
proof (cases "cleanCommentSubmitRequest d r")
  case (Inl e)
  then show ?thesis by (simp add: handlePOST_def)
next
  case (Inr req)
  let ?Q = "\<lambda>(c, err) s'. err = None \<longrightarrow> FormatInt (sint c) \<in> AllIndex s' (req_host req) (req_path req)"
  have rest: "safe (\<lambda>_ _. True)
      (case err of
         Some e \<Rightarrow> Log (LogError e) (Return [HttpError ''backend error'' 500])
       | None \<Rightarrow>
           bind (autoApproveComment (akismetKey d) (req_host req) (req_path req) cid)
             (\<lambda>(approved, err).
                bind (case err of Some e \<Rightarrow> Log (LogError e) (Return ()) | None \<Rightarrow> Return ())
                  (\<lambda>_. Log (LogNew approved (req_host req) (req_path req) cid)
                         (Return [Redirect (Permalink req) 302])))) s'"
    if "?Q (cid, err) s'" for cid err s'
  proof (cases err)
    case None
    then have "FormatInt (sint cid) \<in> AllIndex s' (req_host req) (req_path req)" using that by simp
    from safe_autoApproveComment[OF this, of "akismetKey d"]
    show ?thesis
      unfolding None option.case
      by (intro safe_bind) (auto elim!: safe_weaken split: option.splits)
  next
    case (Some e)
    then show ?thesis by simp
  qed
  have save: "safe (\<lambda>_ _. True)
      (bind (saveComment fuel req) (\<lambda>(cid, err).
         case err of
           Some e \<Rightarrow> Log (LogError e) (Return [HttpError ''backend error'' 500])
         | None \<Rightarrow>
             bind (autoApproveComment (akismetKey d) (req_host req) (req_path req) cid)
               (\<lambda>(approved, err).
                  bind (case err of Some e \<Rightarrow> Log (LogError e) (Return ()) | None \<Rightarrow> Return ())
                    (\<lambda>_. Log (LogNew approved (req_host req) (req_path req) cid)
                           (Return [Redirect (Permalink req) 302]))))) s'" for s'
    by (rule safe_bind, rule safe_weaken[OF safe_saveComment[of req fuel s']])
      (use rest in \<open>auto simp: grows_member\<close>)
  show ?thesis
    unfolding handlePOST_def Inr sum.case
    by (rule safe_bind, rule safe_weaken[OF safe_plain[OF autoEnabled_cmds]])
      (use save in \<open>auto split: option.splits\<close>)
qed

lemma safe_commentHandler: "safe (\<lambda>_ _. True) (commentHandler d fuel r) s"
  unfolding commentHandler_def
  by (rule safe_bind) (auto intro: safe_weaken[OF safe_handleGET] safe_weaken[OF safe_handlePOST])

lemma safe_step:
  assumes "safe Q p (redis w)" and "step1 p w = Some (p', w')"
  shows "careful (redis w) (redis w') \<and> safe Q p' (redis w')"
proof (cases p)
  case (Do c k)
  then show ?thesis using assms by auto
qed (use assms in auto)

lemma sys_step_safe:
  assumes "sys_step env (ps, w) (ps', w')"
    and "\<forall>c. env c \<longrightarrow> plain_command c"
    and "\<forall>p \<in> set ps. safe (\<lambda>_ _. True) p (redis w)"
  shows "careful (redis w) (redis w') \<and> (\<forall>p \<in> set ps'. safe (\<lambda>_ _. True) p (redis w'))"
  using assms(1)
proof (cases rule: sys_step.cases)
  case (proc i p')
  have "safe (\<lambda>_ _. True) (ps ! i) (redis w)" using assms(3) proc(2) by simp
  from safe_step[OF this proc(3)]
  have c: "careful (redis w) (redis w')" and s: "safe (\<lambda>_ _. True) p' (redis w')" by auto
  have "safe (\<lambda>_ _. True) q (redis w')" if "q \<in> set ps'" for q
  proof -
    have "q = p' \<or> q \<in> set ps"
      using that set_update_subset_insert[of ps i p'] proc(1) by auto
    then show ?thesis
      using s assms(3) c safe_later unfolding careful_def by blast
  qed
  then show ?thesis using c by blast
next
  case tick
  then show ?thesis using assms(3) by simp
next
  case (other c)
  then have c: "careful (redis w) (redis w')"
    using assms(2) by (simp add: conn_Do_careful_plain)
  then show ?thesis
    using assms(3) other(1) safe_later unfolding careful_def by blast
qed

lemma sys_reach_safe:
  assumes "(sys_step env)\<^sup>*\<^sup>* (ps0, w0) (ps, w)"
    and "\<forall>c. env c \<longrightarrow> plain_command c"
    and "\<forall>p \<in> set ps0. safe (\<lambda>_ _. True) p (redis w0)"
  shows "(approved_in_all (redis w0) \<longrightarrow> approved_in_all (redis w)) \<and> grows (redis w0) (redis w) \<and>
         (\<forall>p \<in> set ps. safe (\<lambda>_ _. True) p (redis w))"
  using assms(1)
proof (induction rule: rtranclp_induct2)
  case refl
  then show ?case using assms(3) by simp
next
  case (step ps1 w1 ps2 w2)
  from sys_step_safe[OF step(2) assms(2)] step(3)
  have c: "careful (redis w1) (redis w2)" and s: "\<forall>p \<in> set ps2. safe (\<lambda>_ _. True) p (redis w2)"
    by auto
  have "grows (redis w0) (redis w2)"
    using step(3) c grows_trans unfolding careful_def by blast
  then show ?case
    using step(3) c s careful_invariant by blast
qed

text \<open>
  Claim C1: in a system of any number of handler invocations on any requests, interleaved
  in any way at the grain of single store calls, with other clients that send any command
  of the program but a promotion, the approved index of every thread stays within its
  index of all comments (if it was at the start); no step ever removes an identifier from an
  index of all comments; and every identifier a step adds to an approved index was in the
  index of all comments of the thread before that step.
\<close>

theorem approved_within_all:
  assumes "\<forall>p \<in> set ps0. \<exists>d fuel r. p = commentHandler d fuel r"
    and "\<forall>c. env c \<longrightarrow> plain_command c"
    and "(sys_step env)\<^sup>*\<^sup>* (ps0, w0) (ps, w)"
  shows "((\<forall>host path. ApprovedIndex (redis w0) host path \<subseteq> AllIndex (redis w0) host path) \<longrightarrow>
          (\<forall>host path. ApprovedIndex (redis w) host path \<subseteq> AllIndex (redis w) host path)) \<and>
         (\<forall>host path. AllIndex (redis w0) host path \<subseteq> AllIndex (redis w) host path) \<and>
         (\<forall>ps' w' host path. sys_step env (ps, w) (ps', w') \<longrightarrow>
            AllIndex (redis w) host path \<subseteq> AllIndex (redis w') host path \<and>
            ApprovedIndex (redis w') host path \<subseteq> ApprovedIndex (redis w) host path \<union> AllIndex (redis w) host path)"
proof -
  have s0: "\<forall>p \<in> set ps0. safe (\<lambda>_ _. True) p (redis w0)"
  proof
    fix p assume "p \<in> set ps0"
    then obtain d fuel r where "p = commentHandler d fuel r" using assms(1) by blast
    then show "safe (\<lambda>_ _. True) p (redis w0)" by (simp add: safe_commentHandler)
  qed
  note r = sys_reach_safe[OF assms(3,2) s0]
  have "careful (redis w) (redis w')" if "sys_step env (ps, w) (ps', w')" for ps' w'
    using sys_step_safe[OF that assms(2)] r by blast
  then show ?thesis
    using r unfolding careful_def grows_def approved_in_all_def by blast
qed

lemma run_reaches:
  assumes "i < length ps"
  shows "(sys_step env)\<^sup>*\<^sup>* (ps[i := p], w)
           (ps[i := (case fst (run p w) of Some x \<Rightarrow> Return x | None \<Rightarrow> Spin)], snd (run p w))"
proof (induction p arbitrary: w)
  case (Return x)
  show ?case by simp
next
  case Spin
  show ?case by simp
next
  case (Do c k)
  have "sys_step env (ps[i := Do c k], w) ((ps[i := Do c k])[i := k (fst (conn_Do c w))], snd (conn_Do c w))"
    using assms by (intro sys_step.proc) simp_all
  then have "sys_step env (ps[i := Do c k], w) (ps[i := k (fst (conn_Do c w))], snd (conn_Do c w))"
    by simp
  then show ?case
    using Do[of "k (fst (conn_Do c w))" "snd (conn_Do c w)"]
    by (simp add: converse_rtranclp_into_rtranclp)
next
  case (Now k)
  have "sys_step env (ps[i := Now k], w) ((ps[i := Now k])[i := k (fst (time_Now w))], snd (time_Now w))"
    using assms by (intro sys_step.proc) simp_all
  then have "sys_step env (ps[i := Now k], w) (ps[i := k (fst (time_Now w))], snd (time_Now w))"
    by simp
  then show ?case
    using Now[of "k (fst (time_Now w))" "snd (time_Now w)"]
    by (simp add: converse_rtranclp_into_rtranclp del: world_proj)
next
  case (Sleep p)
  have "sys_step env (ps[i := Sleep p], w) ((ps[i := Sleep p])[i := p], time_Sleep w)"
    using assms by (intro sys_step.proc) simp_all
  then have "sys_step env (ps[i := Sleep p], w) (ps[i := p], time_Sleep w)"
    by simp
  then show ?case
    using Sleep[of "time_Sleep w"]
    by (simp add: converse_rtranclp_into_rtranclp)
next
  case (PostForm u d k)
  have "sys_step env (ps[i := PostForm u d k], w)
          ((ps[i := PostForm u d k])[i := k (fst (http_PostForm u d w))], snd (http_PostForm u d w))"
    using assms by (intro sys_step.proc) simp_all
  then have "sys_step env (ps[i := PostForm u d k], w) (ps[i := k (fst (http_PostForm u d w))], snd (http_PostForm u d w))"
    by simp
  then show ?case
    using PostForm[of "k (fst (http_PostForm u d w))" "snd (http_PostForm u d w)"]
    by (simp add: converse_rtranclp_into_rtranclp del: world_proj)
next
  case (Log l p)
  have "sys_step env (ps[i := Log l p], w) ((ps[i := Log l p])[i := p], log_Print l w)"
    using assms by (intro sys_step.proc) simp_all
  then have "sys_step env (ps[i := Log l p], w) (ps[i := p], log_Print l w)"
    by simp
  then show ?case
    using Log[of "log_Print l w"]
    by (simp add: converse_rtranclp_into_rtranclp)
qed

lemma scenario_submission:
  "fst (run (commentHandler scenario_deps (Suc 0) scenario_request) (scenario_world [] [Inr (Inr ''false'')])) =
     Some [Redirect ''https://example.com/post'' 302] \<and>
   ''1700000000'' \<in> ApprovedIndex
      (redis (snd (run (commentHandler scenario_deps (Suc 0) scenario_request) (scenario_world [] [Inr (Inr ''false'')]))))
      ''example.com'' ''/post''"
proof -
  define w0 where "w0 = scenario_world [] [Inr (Inr ''false'')]"
  define w1 where "w1 = snd (run (autoEnabled ''example.com'' ''/post'') w0)"
  define w2 where "w2 = snd (run (saveComment (Suc 0) scenario_req) w1)"
  define c :: int64 where "c = word_of_int 1700000000"
  define w3 where "w3 = snd (run (autoApproveComment ''key'' ''example.com'' ''/post'' c) w2)"
  have 1: "run (autoEnabled (req_host scenario_req) (req_path scenario_req)) w0 = (Some (True, None), w1)"
    unfolding w1_def w0_def by (simp add: run_result scenario_simps)
  have r1: "redis w1 = [keyAutoEnable \<mapsto> RSet {''example.com''}, keyEnabled ''example.com'' ''/post'' \<mapsto> RString ''true'']"
    and f1: "faults w1 = []" and n1: "now w1 = 1700000000" and a1: "akismet w1 = [Inr (Inr ''false'')]"
    unfolding w1_def w0_def by (simp_all add: scenario_simps)
  have 2: "run (saveComment (Suc 0) scenario_req) w1 = (Some (c, None), w2)"
    unfolding w2_def c_def by (simp add: run_result scenario_simps r1 f1 n1)
  have f2: "faults w2 = []" and a2: "akismet w2 = [Inr (Inr ''false'')]"
    and k2: "redis w2 (keyApproved ''example.com'' ''/post'') = None"
    unfolding w2_def by (simp_all add: scenario_simps r1 f1 n1 a1)
  from saveComment_returns[OF 2] obtain h where
    "CommentRecord (redis w2) (req_host scenario_req) (req_path scenario_req) c = Some h" by blast
  then have rec2: "redis w2 (keyComment ''example.com'' ''/post'' c) = Some (RHash h)"
    using CommentRecord_Some by (simp add: scenario_req_def)
  have cs: "sint c = 1700000000" by (simp add: c_def scenario_time)
  have 3: "run (autoApproveComment (akismetKey scenario_deps) (req_host scenario_req) (req_path scenario_req) c) w2 =
             (Some (True, None), w3)"
    unfolding w3_def by (simp add: run_result scenario_simps scenario_deps_def f2 a2 rec2 k2 cs)
  have m: "Method scenario_request = ''POST''" "form_error scenario_request = []"
    by (simp_all add: scenario_request_def form_error_def)
  have q: "req_host scenario_req = ''example.com''" "req_path scenario_req = ''/post''"
    "Permalink scenario_req = ''https://example.com/post''"
    by (simp_all add: scenario_req_def)
  have A: "run (commentHandler scenario_deps (Suc 0) scenario_request) w0 =
           (Some (form_error scenario_request @ [Redirect (Permalink scenario_req) 302]),
            log_Print (LogNew True (req_host scenario_req) (req_path scenario_req) c) w3)"
    using run_commentHandler_POST(2)[OF m(1) scenario_clean 1 2 refl 3] by simp
  have B: "''1700000000'' \<in> ApprovedIndex (redis w3) ''example.com'' ''/post''"
    using autoApproveComment_approved(2)[OF 3] unfolding q by (simp add: cs scenario_format)
  have "fst (run (commentHandler scenario_deps (Suc 0) scenario_request) w0) = Some [Redirect ''https://example.com/post'' 302]"
    unfolding A m q by simp
  moreover have "redis (snd (run (commentHandler scenario_deps (Suc 0) scenario_request) w0)) = redis w3"
    unfolding A by simp
  ultimately show ?thesis
    using B unfolding w0_def by simp
qed

theorem approved_within_all_witness:
  "ApprovedIndex
      (redis (snd (run (commentHandler scenario_deps (Suc 0) scenario_request) (scenario_world [] [Inr (Inr ''false'')]))))
      ''example.com'' ''/post''
    \<subseteq> AllIndex
      (redis (snd (run (commentHandler scenario_deps (Suc 0) scenario_request) (scenario_world [] [Inr (Inr ''false'')]))))
      ''example.com'' ''/post'' \<and>
   ''1700000000'' \<in> ApprovedIndex
      (redis (snd (run (commentHandler scenario_deps (Suc 0) scenario_request) (scenario_world [] [Inr (Inr ''false'')]))))
      ''example.com'' ''/post''"
proof -
  define H where "H = commentHandler scenario_deps (Suc 0) scenario_request"
  define w0 where "w0 = scenario_world [] [Inr (Inr ''false'')]"
  have reach: "(sys_step (\<lambda>c. False))\<^sup>*\<^sup>* ([H], w0)
      ([case fst (run H w0) of Some x \<Rightarrow> Return x | None \<Rightarrow> Spin], snd (run H w0))"
    using run_reaches[of 0 "[H]" "\<lambda>c. False" H w0] by simp
  have init: "\<forall>host path. ApprovedIndex (redis w0) host path \<subseteq> AllIndex (redis w0) host path"
    by (simp add: w0_def scenario_world_def ApprovedIndex_def key_neq)
  have hs: "\<forall>p \<in> set [H]. \<exists>d fuel r. p = commentHandler d fuel r"
    unfolding H_def by auto
  from approved_within_all[OF hs _ reach] init
  have "\<forall>host path. ApprovedIndex (redis (snd (run H w0))) host path \<subseteq> AllIndex (redis (snd (run H w0))) host path"
    by blast
  then show ?thesis
    using scenario_submission unfolding H_def w0_def by blast
qed
















end
